theory Spec2Isabelle
  imports Main "HOL-Library.Word"
begin

unbundle bit_operations_syntax

section \<open>Data model\<close>

text \<open>
  The virtual machine of the repository: an assembler (\<^verbatim>\<open>uvm_asm.py\<close>), the machine
  state (\<^verbatim>\<open>uvm_memory.py\<close>) and the interpreter (\<^verbatim>\<open>interpreter.py\<close>).

  Python integers are unbounded and are modelled as \<open>int\<close>; a \<^verbatim>\<open>bytes\<close> value is a
  list of 8-bit words. Every exception the code raises is a value of \<open>error\<close>: the
  assembler, encoder and decoder raise \<^verbatim>\<open>ValueError\<close> with distinct messages (one
  constructor per message, carrying the values the message prints), the memory raises
  \<^verbatim>\<open>IndexError\<close>, and indexing a Python list out of range raises \<^verbatim>\<open>IndexError\<close> too.
\<close>

type_synonym byte = "8 word"

datatype error =
    OpcodeRange int          \<comment> \<open>ValueError of \<^verbatim>\<open>pack_instruction\<close>: field A outside 0..127\<close>
  | OperandRange int         \<comment> \<open>ValueError of \<^verbatim>\<open>pack_instruction\<close>: field B outside 0..2^26-1\<close>
  | Overflow                 \<comment> \<open>OverflowError of \<^verbatim>\<open>int.to_bytes\<close>\<close>
  | InstructionLength nat    \<comment> \<open>ValueError of \<^verbatim>\<open>decode_instruction\<close>: not 5 bytes\<close>
  | UnknownOpcode int        \<comment> \<open>ValueError of \<^verbatim>\<open>decode_instruction\<close>: field A not in OPCODE_NAMES\<close>
  | UnknownCommand string    \<comment> \<open>ValueError of \<^verbatim>\<open>asm\<close>: mnemonic not handled\<close>
  | MissingArgument string   \<comment> \<open>ValueError of \<^verbatim>\<open>full_asm\<close>: the command needs an argument\<close>
  | InvalidLiteral string    \<comment> \<open>ValueError of \<^verbatim>\<open>int(arg)\<close>\<close>
  | ReadAddress int          \<comment> \<open>IndexError of \<^verbatim>\<open>UVMMemory.read_data\<close>\<close>
  | WriteAddress int         \<comment> \<open>IndexError of \<^verbatim>\<open>UVMMemory.write_data\<close>\<close>
  | ListIndex                \<comment> \<open>IndexError: list index out of range\<close>

section \<open>Encoder and decoder\<close>

text \<open>\<^verbatim>\<open>int.to_bytes(length, "little")\<close> and \<^verbatim>\<open>int.from_bytes(bs, byteorder="little")\<close>
  (unsigned).\<close>

fun le_bytes :: "nat \<Rightarrow> int \<Rightarrow> byte list" where
  "le_bytes 0 v = []"
| "le_bytes (Suc n) v = word_of_int (v mod 256) # le_bytes n (v div 256)"

definition to_bytes :: "int \<Rightarrow> nat \<Rightarrow> error + byte list" where
  "to_bytes v n = (if v < 0 \<or> 256 ^ n \<le> v then Inl Overflow else Inr (le_bytes n v))"

fun from_bytes :: "byte list \<Rightarrow> int" where
  "from_bytes [] = 0"
| "from_bytes (x # xs) = uint x + 256 * from_bytes xs"

text \<open>\<^verbatim>\<open>pack_instruction(a, b)\<close>: \<^verbatim>\<open>value = a | (b << 7)\<close>, five bytes, little-endian.\<close>

definition pack_instruction :: "int \<Rightarrow> int \<Rightarrow> error + byte list" where
  "pack_instruction a b =
     (if a < 0 \<or> a \<ge> push_bit 7 1 then Inl (OpcodeRange a)
      else if b < 0 \<or> b \<ge> push_bit 26 1 then Inl (OperandRange b)
      else to_bytes (a OR push_bit 7 b) 5)"

definition OP_LOAD_CONST :: int where "OP_LOAD_CONST = 14"
definition OP_READ :: int where "OP_READ = 11"
definition OP_WRITE :: int where "OP_WRITE = 94"
definition OP_LESS :: int where "OP_LESS = 69"

text \<open>The dictionary \<^verbatim>\<open>OPCODE_NAMES\<close> of \<^verbatim>\<open>uvm_memory.py\<close>.\<close>

definition OPCODE_NAMES :: "int \<rightharpoonup> string" where
  "OPCODE_NAMES = [14 \<mapsto> ''load_const'', 11 \<mapsto> ''read_value'',
                   94 \<mapsto> ''write_value'', 69 \<mapsto> ''less'']"

text \<open>\<^verbatim>\<open>decode_instruction(instruction_bytes)\<close>.\<close>

definition decode_instruction :: "byte list \<Rightarrow> error + (string \<times> int)" where
  "decode_instruction instruction_bytes =
     (if length instruction_bytes \<noteq> 5 then Inl (InstructionLength (length instruction_bytes))
      else let v = from_bytes instruction_bytes;
               a = v AND 0x7F;
               b = drop_bit 7 v
           in case OPCODE_NAMES a of
                None \<Rightarrow> Inl (UnknownOpcode a)
              | Some cmd_name \<Rightarrow> Inr (cmd_name, b))"

section \<open>Machine state\<close>

text \<open>The class \<^verbatim>\<open>UVMMemory\<close>: data memory, the (unused) stack, the instruction pointer
  and the accumulator. The methods mutate the object; here they return the new state.\<close>

record UVMMemory =
  data :: "int list"
  stack :: "int list"
  ip :: int
  acc :: int

definition UVMMemory_init :: "nat \<Rightarrow> UVMMemory" where
  "UVMMemory_init data_size =
     \<lparr>data = replicate data_size 0, stack = [], ip = 0, acc = 0\<rparr>"

definition read_data :: "UVMMemory \<Rightarrow> int \<Rightarrow> error + int" where
  "read_data memory address =
     (if 0 \<le> address \<and> address < int (length (data memory))
      then Inr (data memory ! nat address)
      else Inl (ReadAddress address))"

definition write_data :: "UVMMemory \<Rightarrow> int \<Rightarrow> int \<Rightarrow> error + UVMMemory" where
  "write_data memory address v =
     (if 0 \<le> address \<and> address < int (length (data memory))
      then Inr (memory\<lparr>data := (data memory)[nat address := v]\<rparr>)
      else Inl (WriteAddress address))"

section \<open>Interpreter\<close>

text \<open>
  The entries \<^verbatim>\<open>run_program\<close> appends to \<^verbatim>\<open>log_messages\<close>. Each constructor is one
  message of the source and carries the values the message formats; the rendering to
  text (and the final join with newlines) is not modelled.
\<close>

datatype log_entry =
    LogStart nat                  \<comment> \<open>\<^verbatim>\<open>[INFO]\<close> start of the program, number of instructions\<close>
  | LogDecodeError int error      \<comment> \<open>\<^verbatim>\<open>[RUNTIME ERROR]\<close> at address ip: the decoding error\<close>
  | LogExec int string int int    \<comment> \<open>address, command, operand B, ACC before the instruction\<close>
  | LogUnknownCommand string      \<comment> \<open>\<^verbatim>\<open>[RUNTIME ERROR]\<close> unknown command\<close>
  | LogFinished int               \<comment> \<open>execution finished at IP\<close>
  | LogFinalAcc int               \<comment> \<open>final ACC\<close>
  | LogMemoryHead "int list"      \<comment> \<open>\<^verbatim>\<open>memory.data[:16]\<close>\<close>

text \<open>\<^verbatim>\<open>[bytecode[i:i + 5] for i in range(i, len(bytecode), 5)]\<close>, from index \<open>i\<close> on.\<close>

function slices :: "byte list \<Rightarrow> nat \<Rightarrow> byte list list" where
  "slices bytecode i =
     (if i < length bytecode then take 5 (drop i bytecode) # slices bytecode (i + 5) else [])"
  by pat_completeness auto
termination
  by (relation "measure (\<lambda>(bytecode, i). length bytecode - i)") auto

declare slices.simps [simp del]

text \<open>Python list indexing \<^verbatim>\<open>xs[i]\<close>: a negative index counts from the end.\<close>

definition py_index :: "'a list \<Rightarrow> int \<Rightarrow> error + 'a" where
  "py_index xs i =
     (if 0 \<le> i \<and> i < int (length xs) then Inr (xs ! nat i)
      else if i < 0 \<and> - int (length xs) \<le> i then Inr (xs ! nat (int (length xs) + i))
      else Inl ListIndex)"

text \<open>
  One iteration of the \<^verbatim>\<open>while\<close> loop of \<^verbatim>\<open>run_program\<close>: the loop goes on
  (\<open>Next\<close>), leaves by \<^verbatim>\<open>break\<close> (\<open>Stop\<close>), or an exception leaves
  \<^verbatim>\<open>run_program\<close> (\<open>Raise\<close>, with the memory object as it is at that moment; the
  local log is lost).
\<close>

datatype loop_step =
    Next UVMMemory "log_entry list"
  | Stop UVMMemory "log_entry list"
  | Raise error UVMMemory

definition loop_body :: "byte list list \<Rightarrow> UVMMemory \<Rightarrow> log_entry list \<Rightarrow> loop_step" where
  "loop_body instructions memory log_messages =
     (case py_index instructions (ip memory) of
        Inl e \<Rightarrow> Raise e memory
      | Inr instruction_bytes \<Rightarrow>
          let current_ip = ip memory in
          (case decode_instruction instruction_bytes of
             Inl e \<Rightarrow> Stop memory (log_messages @ [LogDecodeError (ip memory) e])
           | Inr (cmd, operand) \<Rightarrow>
               let log_messages = log_messages @ [LogExec current_ip cmd operand (acc memory)];
                   new_ip = current_ip + 1
               in
               if cmd = ''load_const'' then
                 Next (memory\<lparr>acc := operand, ip := new_ip\<rparr>) log_messages
               else if cmd = ''read_value'' then
                 (case read_data memory operand of
                    Inl e \<Rightarrow> Raise e memory
                  | Inr v \<Rightarrow> Next (memory\<lparr>acc := v, ip := new_ip\<rparr>) log_messages)
               else if cmd = ''write_value'' then
                 (case write_data memory operand (acc memory) of
                    Inl e \<Rightarrow> Raise e memory
                  | Inr memory' \<Rightarrow> Next (memory'\<lparr>ip := new_ip\<rparr>) log_messages)
               else if cmd = ''less'' then
                 (case read_data memory operand of
                    Inl e \<Rightarrow> Raise e memory
                  | Inr lhs \<Rightarrow>
                      let rhs = acc memory;
                          result = (if lhs < rhs then 1 else 0)
                      in (case write_data memory operand result of
                            Inl e \<Rightarrow> Raise e memory
                          | Inr memory' \<Rightarrow> Next (memory'\<lparr>ip := new_ip\<rparr>) log_messages))
               else Stop memory (log_messages @ [LogUnknownCommand cmd])))"

lemma loop_body_Next_ip:
  "loop_body instructions memory l = Next memory' l' \<Longrightarrow> ip memory' = ip memory + 1"
  by (auto simp: loop_body_def Let_def write_data_def
           split: sum.splits prod.splits if_splits)

text \<open>The \<^verbatim>\<open>while memory.ip < len(instructions)\<close> loop.\<close>

function run_loop ::
  "byte list list \<Rightarrow> UVMMemory \<Rightarrow> log_entry list \<Rightarrow> (error + log_entry list) \<times> UVMMemory" where
  "run_loop instructions memory log_messages =
     (if ip memory < int (length instructions) then
        (case loop_body instructions memory log_messages of
           Next memory' log_messages' \<Rightarrow> run_loop instructions memory' log_messages'
         | Stop memory' log_messages' \<Rightarrow> (Inr log_messages', memory')
         | Raise e memory' \<Rightarrow> (Inl e, memory'))
      else (Inr log_messages, memory))"
  by pat_completeness auto
termination
  by (relation "measure (\<lambda>(instructions, memory, l). nat (int (length instructions) - ip memory))")
     (auto dest: loop_body_Next_ip)

declare run_loop.simps [simp del]

text \<open>
  \<^verbatim>\<open>run_program(bytecode, memory)\<close>: the result is the log, or the exception that left
  the function, together with the memory object as the call leaves it.
\<close>

definition run_program ::
  "byte list \<Rightarrow> UVMMemory \<Rightarrow> (error + log_entry list) \<times> UVMMemory" where
  "run_program bytecode memory =
     (let instructions = slices bytecode 0;
          log_messages = [LogStart (length instructions)]
      in case run_loop instructions memory log_messages of
           (Inl e, memory') \<Rightarrow> (Inl e, memory')
         | (Inr log_messages', memory') \<Rightarrow>
             (Inr (log_messages' @
                   [LogFinished (ip memory'), LogFinalAcc (acc memory'),
                    LogMemoryHead (take 16 (data memory'))]), memory'))"

text \<open>
  Two notions used to state properties of the loop. \<open>loop_prefix n\<close> runs the first \<open>n\<close>
  iterations of the loop and gives the memory and the log after them when each of them
  went on to the next iteration (\<open>None\<close> otherwise). \<open>step_memory\<close> is the memory
  object after one iteration, whatever its outcome.
\<close>

fun loop_prefix :: "nat \<Rightarrow> byte list list \<Rightarrow> UVMMemory \<Rightarrow> log_entry list \<Rightarrow> (UVMMemory \<times> log_entry list) option" where
  "loop_prefix 0 instructions memory l = Some (memory, l)"
| "loop_prefix (Suc k) instructions memory l =
     (if ip memory < int (length instructions) then
        (case loop_body instructions memory l of
           Next memory' l' \<Rightarrow> loop_prefix k instructions memory' l'
         | Stop memory' l' \<Rightarrow> None
         | Raise e memory' \<Rightarrow> None)
      else None)"

fun step_memory :: "loop_step \<Rightarrow> UVMMemory" where
  "step_memory (Next m l) = m"
| "step_memory (Stop m l) = m"
| "step_memory (Raise e m) = m"

section \<open>Assembler\<close>

text \<open>
  Python strings are modelled as \<open>string\<close>, one \<open>char\<close> per code point, so the
  model covers source texts whose code points are below 256. The string methods used by
  \<^verbatim>\<open>full_asm\<close> follow:
  \<^item> \<^verbatim>\<open>str.isspace\<close> of one character, which \<^verbatim>\<open>str.strip()\<close> and \<^verbatim>\<open>int()\<close> use: the
    code points 9 to 13, 28 to 32, 133 and 160;
  \<^item> \<^verbatim>\<open>str.splitlines()\<close>, which breaks at 10, 11, 12, 13 (13 followed by 10 is one
    break), 28, 29, 30 and 133 and returns no empty last line;
  \<^item> \<^verbatim>\<open>str.split(sep)\<close> with a separator of one character;
  \<^item> \<^verbatim>\<open>int(s)\<close> in base 10: surrounding white space, an optional sign, then decimal
    digits, where single underscores may stand between digits. The white space that
    \<^verbatim>\<open>int\<close> removes is the code points 9 to 13, 32, 133 and 160 (not 28 to 31). (The
    limit on the number of digits that recent interpreters apply to very long literals
    is a setting of the interpreter and is not part of the model.)
\<close>

definition isspace :: "char \<Rightarrow> bool" where
  "isspace c \<longleftrightarrow> c \<in> set [CHR 0x09, CHR 0x0A, CHR 0x0B, CHR 0x0C, CHR 0x0D,
                           CHR 0x1C, CHR 0x1D, CHR 0x1E, CHR 0x1F, CHR 0x20,
                           CHR 0x85, CHR 0xA0]"

definition strip :: "string \<Rightarrow> string" where
  "strip s = rev (dropWhile isspace (rev (dropWhile isspace s)))"

definition is_linebreak :: "char \<Rightarrow> bool" where
  "is_linebreak c \<longleftrightarrow> c \<in> set [CHR 0x0A, CHR 0x0B, CHR 0x0C, CHR 0x0D,
                               CHR 0x1C, CHR 0x1D, CHR 0x1E, CHR 0x85]"

text \<open>\<open>splitlines_from cur s\<close>: the lines of \<open>s\<close>, where \<open>cur\<close> holds the characters of
  the current line read so far, in reverse.\<close>

fun splitlines_from :: "string \<Rightarrow> string \<Rightarrow> string list" where
  "splitlines_from cur [] = (if cur = [] then [] else [rev cur])"
| "splitlines_from cur (c # s) =
     (if c = CHR 0x0D then
        (case s of
           [] \<Rightarrow> rev cur # splitlines_from [] s
         | d # s' \<Rightarrow>
             if d = CHR 0x0A then rev cur # splitlines_from [] s'
             else rev cur # splitlines_from [] s)
      else if is_linebreak c then rev cur # splitlines_from [] s
      else splitlines_from (c # cur) s)"

definition splitlines :: "string \<Rightarrow> string list" where
  "splitlines s = splitlines_from [] s"

fun split_on :: "char \<Rightarrow> string \<Rightarrow> string list" where
  "split_on sep [] = [[]]"
| "split_on sep (c # s) =
     (if c = sep then [] # split_on sep s
      else (c # hd (split_on sep s)) # tl (split_on sep s))"

definition is_digit :: "char \<Rightarrow> bool" where
  "is_digit c \<longleftrightarrow> c \<in> set ''0123456789''"

definition digit_value :: "char \<Rightarrow> int" where
  "digit_value c = int (of_char c) - 48"

fun parse_digits :: "int \<Rightarrow> string \<Rightarrow> int option" where
  "parse_digits n [] = Some n"
| "parse_digits n (c # s) =
     (if is_digit c then parse_digits (10 * n + digit_value c) s
      else if c = CHR ''_'' then
        (case s of
           [] \<Rightarrow> None
         | d # s' \<Rightarrow> if is_digit d then parse_digits (10 * n + digit_value d) s' else None)
      else None)"

definition parse_unsigned :: "string \<Rightarrow> int option" where
  "parse_unsigned s =
     (case s of
        [] \<Rightarrow> None
      | c # s' \<Rightarrow> if is_digit c then parse_digits (digit_value c) s' else None)"

definition int_space :: "char \<Rightarrow> bool" where
  "int_space c \<longleftrightarrow> c \<in> set [CHR 0x09, CHR 0x0A, CHR 0x0B, CHR 0x0C, CHR 0x0D, CHR 0x20,
                             CHR 0x85, CHR 0xA0]"

definition py_int :: "string \<Rightarrow> error + int" where
  "py_int s =
     (let t = rev (dropWhile int_space (rev (dropWhile int_space s)));
          r = (case t of
                 [] \<Rightarrow> None
               | c # t' \<Rightarrow>
                   if c = CHR ''-'' then map_option uminus (parse_unsigned t')
                   else if c = CHR ''+'' then parse_unsigned t'
                   else parse_unsigned t)
      in case r of None \<Rightarrow> Inl (InvalidLiteral s) | Some n \<Rightarrow> Inr n)"

text \<open>The functions \<^verbatim>\<open>asm_load_const\<close>, \<^verbatim>\<open>asm_read_value\<close>, \<^verbatim>\<open>asm_write_value\<close> and
  \<^verbatim>\<open>asm_less\<close>.\<close>

definition asm_load_const :: "int \<Rightarrow> error + byte list" where
  "asm_load_const const = pack_instruction OP_LOAD_CONST const"

definition asm_read_value :: "int \<Rightarrow> error + byte list" where
  "asm_read_value address = pack_instruction OP_READ address"

definition asm_write_value :: "int \<Rightarrow> error + byte list" where
  "asm_write_value address = pack_instruction OP_WRITE address"

definition asm_less :: "int \<Rightarrow> error + byte list" where
  "asm_less address = pack_instruction OP_LESS address"

text \<open>\<^verbatim>\<open>asm(IR)\<close>: \<open>asm_entry\<close> is the \<^verbatim>\<open>if\<close>/\<^verbatim>\<open>elif\<close> chain of the loop body, which
  gives the word added to the bytecode or raises; \<open>asm_loop\<close> is the loop over the IR,
  with the bytecode built so far. The IR entries are the pairs (command, argument) that
  \<^verbatim>\<open>full_asm\<close> builds.\<close>

definition asm_entry :: "string \<times> int \<Rightarrow> error + byte list" where
  "asm_entry entry =
     (case entry of (op, arg) \<Rightarrow>
        if op = ''load_const'' then asm_load_const arg
        else if op = ''read_value'' then asm_read_value arg
        else if op = ''write_value'' then asm_write_value arg
        else if op = ''less'' then asm_less arg
        else Inl (UnknownCommand op))"

fun asm_loop :: "(string \<times> int) list \<Rightarrow> byte list \<Rightarrow> error + byte list" where
  "asm_loop [] bytecode = Inr bytecode"
| "asm_loop (entry # IR) bytecode =
     (case asm_entry entry of
        Inl e \<Rightarrow> Inl e
      | Inr w \<Rightarrow> asm_loop IR (bytecode @ w))"

definition asm :: "(string \<times> int) list \<Rightarrow> error + byte list" where
  "asm IR = asm_loop IR []"

text \<open>The body of the loop over the lines in \<^verbatim>\<open>full_asm\<close>. \<open>strip_comment\<close> is its
  first step: the line is stripped and a trailing comment removed. \<open>parse_line\<close> is
  the whole body: \<open>Inr None\<close> when the line is skipped (\<^verbatim>\<open>continue\<close>),
  \<open>Inr (Some entry)\<close> when an entry is appended to the IR.\<close>

definition strip_comment :: "string \<Rightarrow> string" where
  "strip_comment line0 =
     (let line = strip line0
      in if CHR ''#'' \<in> set line then strip (split_on CHR ''#'' line ! 0) else line)"

definition parse_line :: "string \<Rightarrow> error + (string \<times> int) option" where
  "parse_line line0 =
     (let line = strip_comment line0
      in if line = [] then Inr None
         else
           let parts = split_on CHR '';'' line;
               cmd = strip (parts ! 0)
           in if length parts > 1 \<and> strip (parts ! 1) \<noteq> [] then
                let arg = strip (parts ! 1)
                in (case py_int arg of Inl e \<Rightarrow> Inl e | Inr n \<Rightarrow> Inr (Some (cmd, n)))
              else Inl (MissingArgument cmd))"

fun parse_lines :: "string list \<Rightarrow> (string \<times> int) list \<Rightarrow> error + (string \<times> int) list" where
  "parse_lines [] IR = Inr IR"
| "parse_lines (line # lines) IR =
     (case parse_line line of
        Inl e \<Rightarrow> Inl e
      | Inr None \<Rightarrow> parse_lines lines IR
      | Inr (Some entry) \<Rightarrow> parse_lines lines (IR @ [entry]))"

text \<open>\<^verbatim>\<open>full_asm(text)\<close>: the pair (bytecode, IR), or the exception raised.\<close>

definition full_asm :: "string \<Rightarrow> error + (byte list \<times> (string \<times> int) list)" where
  "full_asm text =
     (let text = strip text
      in case parse_lines (splitlines text) [] of
           Inl e \<Rightarrow> Inl e
         | Inr IR \<Rightarrow>
             (case asm IR of
                Inl e \<Rightarrow> Inl e
              | Inr bytecode \<Rightarrow> Inr (bytecode, IR)))"

section \<open>Runner\<close>

text \<open>
  \<^verbatim>\<open>core_runner.py\<close>: \<^verbatim>\<open>run_uvm_source\<close> assembles a source text, runs the bytecode on a
  fresh memory and dumps the memory. The three parts of its result are texts; here they
  are kept as the values the texts render: the bytecode (printed in hex), the log of
  \<^verbatim>\<open>run_program\<close> or the one line made from an exception caught around it, and the
  fields of the memory dump (stack, registers, the cells of an address range).
\<close>

datatype log_text =
    ProgramLog "log_entry list"     \<comment> \<open>the log \<^verbatim>\<open>run_program\<close> returned\<close>
  | CaughtRuntimeError error        \<comment> \<open>\<^verbatim>\<open>[RUNTIME ERROR]\<close> type and message of the exception\<close>

record memory_dump =
  dump_stack :: "int list"
  dump_ip :: int
  dump_acc :: int
  dump_cells :: "(int \<times> int) list"

definition dump_memory_to_xml_str :: "UVMMemory \<Rightarrow> int \<Rightarrow> int \<Rightarrow> memory_dump" where
  "dump_memory_to_xml_str memory start_addr end_addr =
     (let start = max 0 start_addr;
          stop = min (end_addr + 1) (int (length (data memory)))
      in \<lparr>dump_stack = stack memory, dump_ip = ip memory, dump_acc = acc memory,
          dump_cells = map (\<lambda>addr. (addr, data memory ! nat addr)) [start..stop - 1]\<rparr>)"

datatype run_output =
    EmptySource                              \<comment> \<open>\<^verbatim>\<open>[WARN]\<close> the source text is empty\<close>
  | AsmError error                           \<comment> \<open>\<^verbatim>\<open>[ASM ERROR]\<close> type and message\<close>
  | Report "byte list" log_text memory_dump  \<comment> \<open>bytecode, log, dump\<close>

definition assemble_source :: "string \<Rightarrow> error + (byte list \<times> (string \<times> int) list)" where
  "assemble_source source = full_asm source"

definition run_uvm_source :: "string \<Rightarrow> run_output" where
  "run_uvm_source source0 =
     (let source = strip source0
      in if source = [] then EmptySource
         else
           (case assemble_source source of
              Inl e \<Rightarrow> AsmError e
            | Inr (bytecode, IR) \<Rightarrow>
                let memory = UVMMemory_init 2048;
                    (log_text, memory') =
                      (case run_program bytecode memory of
                         (Inl e, m) \<Rightarrow> (CaughtRuntimeError e, m)
                       | (Inr log_messages, m) \<Rightarrow> (ProgramLog log_messages, m))
                in Report bytecode log_text (dump_memory_to_xml_str memory' 0 31)))"

text \<open>A program whose second instruction reads outside a memory of 2048 cells.\<close>

definition faulting_source :: string where
  "faulting_source = ''load_const; 7'' @ [CHR 0x0A] @ ''read_value; 2048''"

text \<open>The program of the execution example: \<^verbatim>\<open>load_const;5\<close>, \<^verbatim>\<open>write_value;0\<close>,
  \<^verbatim>\<open>load_const;3\<close>, \<^verbatim>\<open>less;0\<close>, one instruction per line.\<close>

definition example_source :: string where
  "example_source = ''load_const;5'' @ [CHR 0x0A] @ ''write_value;0'' @ [CHR 0x0A] @
                    ''load_const;3'' @ [CHR 0x0A] @ ''less;0''"

section \<open>Properties of the encoder and decoder\<close>

lemma from_le_bytes: "0 \<le> v \<Longrightarrow> from_bytes (le_bytes n v) = v mod 256 ^ n"
proof (induction n arbitrary: v)
  case 0 then show ?case by simp
next
  case (Suc n)
  have u: "uint (word_of_int (v mod 256) :: byte) = v mod 256"
    by (simp add: uint_word_of_int)
  have "0 \<le> v div 256" using Suc.prems by simp
  then have "from_bytes (le_bytes n (v div 256)) = (v div 256) mod 256 ^ n" by (rule Suc.IH)
  moreover have "v mod (256 * 256 ^ n) = 256 * (v div 256 mod 256 ^ n) + v mod 256"
    by (rule zmod_zmult2_eq) simp
  ultimately show ?case using u by simp
qed

lemma length_le_bytes: "length (le_bytes n v) = n"
  by (induction n arbitrary: v) auto

lemma or_push: 
  assumes "0 \<le> a" "a < 128" 
  shows "(a::int) OR push_bit 7 b = a + 128 * b"
proof -
  have a: "take_bit 7 a = a" using assms by (simp add: take_bit_int_eq_self)
  have "take_bit 7 a AND push_bit 7 b = 0"
    by (rule bit_eqI) (simp add: bit_simps)
  then have "take_bit 7 a + push_bit 7 b = take_bit 7 a OR push_bit 7 b"
    by (rule disjunctive_add_eq_or)
  then show ?thesis using a by (simp add: push_bit_eq_mult)
qed

lemma and7f: "(v::int) AND 0x7F = v mod 128"
proof -
  have "(0x7F::int) = mask 7" by (simp add: mask_eq_exp_minus_1)
  then have "v AND 0x7F = take_bit 7 v" by (simp add: take_bit_eq_mask)
  then show ?thesis by (simp add: take_bit_eq_mod)
qed

lemma drop7: "drop_bit 7 (v::int) = v div 128"
  by (simp add: drop_bit_eq_div)

lemma pack_ok:
  assumes "0 \<le> a" "a < 128" "0 \<le> b" "b < 2 ^ 26"
  shows "pack_instruction a b = Inr (le_bytes 5 (a + 128 * b))"
proof -
  have "a + 128 * b < 256 ^ 5" using assms by simp
  moreover have "0 \<le> a + 128 * b" using assms by simp
  ultimately show ?thesis using assms
    by (simp add: pack_instruction_def to_bytes_def or_push)
qed

lemma decode_pack:
  assumes "0 \<le> a" "a < 128" "0 \<le> b" "b < 2 ^ 26"
  shows "decode_instruction (le_bytes 5 (a + 128 * b)) =
     (case OPCODE_NAMES a of None \<Rightarrow> Inl (UnknownOpcode a) | Some n \<Rightarrow> Inr (n, b))"
proof -
  let ?v = "a + 128 * b"
  have "?v < 256 ^ 5" "0 \<le> ?v" using assms by simp_all
  then have fb: "from_bytes (le_bytes 5 ?v) = ?v"
    by (simp add: from_le_bytes del: le_bytes.simps)
  have m: "?v mod 128 = a" using assms by simp
  have d: "?v div 128 = b" using assms by simp
  have "decode_instruction (le_bytes 5 ?v) =
     (case OPCODE_NAMES (?v mod 128) of None \<Rightarrow> Inl (UnknownOpcode (?v mod 128))
      | Some n \<Rightarrow> Inr (n, ?v div 128))"
    unfolding decode_instruction_def Let_def fb and7f drop7 length_le_bytes by simp
  then show ?thesis by (simp only: m d)
qed

lemma pack_length_value:
  assumes "0 \<le> a" "a < 128" "0 \<le> b" "b < 2 ^ 26"
  shows "\<exists>w. pack_instruction a b = Inr w \<and> length w = 5 \<and> from_bytes w = a OR push_bit 7 b"
proof -
  let ?v = "a + 128 * b"
  have "?v < 256 ^ 5" "0 \<le> ?v" using assms by simp_all
  then have "from_bytes (le_bytes 5 ?v) = ?v"
    by (simp add: from_le_bytes del: le_bytes.simps)
  then show ?thesis using assms
    by (simp add: pack_ok or_push length_le_bytes del: le_bytes.simps)
qed

text \<open>
  Claim C7. \<^verbatim>\<open>pack_instruction(a, b)\<close> raises exactly when \<open>a\<close> is outside \<open>[0, 128)\<close>
  or \<open>b\<close> is outside \<open>[0, 2^26)\<close> (the error names the field checked first);
  otherwise it returns the five bytes whose little-endian value is \<open>a | (b << 7)\<close>.
  The four fixtures of the built-in test hold.
\<close>

theorem pack_instruction_correct:
  "((\<exists>e. pack_instruction a b = Inl e) \<longleftrightarrow> (a < 0 \<or> 128 \<le> a \<or> b < 0 \<or> 2 ^ 26 \<le> b)) \<and>
   (a < 0 \<or> 128 \<le> a \<longrightarrow> pack_instruction a b = Inl (OpcodeRange a)) \<and>
   (0 \<le> a \<and> a < 128 \<and> (b < 0 \<or> 2 ^ 26 \<le> b) \<longrightarrow> pack_instruction a b = Inl (OperandRange b)) \<and>
   (0 \<le> a \<and> a < 128 \<and> 0 \<le> b \<and> b < 2 ^ 26 \<longrightarrow>
      (\<exists>w. pack_instruction a b = Inr w \<and> length w = 5 \<and>
           from_bytes w = a OR push_bit 7 b)) \<and>
   pack_instruction 14 381 = Inr [0x8E, 0xBE, 0x00, 0x00, 0x00] \<and>
   pack_instruction 11 435 = Inr [0x8B, 0xD9, 0x00, 0x00, 0x00] \<and>
   pack_instruction 94 308 = Inr [0x5E, 0x9A, 0x00, 0x00, 0x00] \<and>
   pack_instruction 69 989 = Inr [0xC5, 0xEE, 0x01, 0x00, 0x00]"
proof -
  have bad_a: "a < 0 \<or> 128 \<le> a \<Longrightarrow> pack_instruction a b = Inl (OpcodeRange a)"
    by (auto simp: pack_instruction_def)
  have bad_b: "0 \<le> a \<and> a < 128 \<and> (b < 0 \<or> 2 ^ 26 \<le> b) \<Longrightarrow>
               pack_instruction a b = Inl (OperandRange b)"
    by (auto simp: pack_instruction_def)
  have good: "0 \<le> a \<and> a < 128 \<and> 0 \<le> b \<and> b < 2 ^ 26 \<Longrightarrow>
      (\<exists>w. pack_instruction a b = Inr w \<and> length w = 5 \<and> from_bytes w = a OR push_bit 7 b)"
    using pack_length_value[of a b] by simp
  have iff: "(\<exists>e. pack_instruction a b = Inl e) \<longleftrightarrow> (a < 0 \<or> 128 \<le> a \<or> b < 0 \<or> 2 ^ 26 \<le> b)"
  proof
    assume "\<exists>e. pack_instruction a b = Inl e"
    then show "a < 0 \<or> 128 \<le> a \<or> b < 0 \<or> 2 ^ 26 \<le> b"
      using good by (cases "0 \<le> a \<and> a < 128 \<and> 0 \<le> b \<and> b < 2 ^ 26") auto
  next
    assume "a < 0 \<or> 128 \<le> a \<or> b < 0 \<or> 2 ^ 26 \<le> b"
    then show "\<exists>e. pack_instruction a b = Inl e"
      using bad_a bad_b by (cases "a < 0 \<or> 128 \<le> a") auto
  qed
  have f1: "pack_instruction 14 381 = Inr [0x8E, 0xBE, 0x00, 0x00, 0x00]"
    by (simp add: pack_instruction_def to_bytes_def numeral_eq_Suc)
  have f2: "pack_instruction 11 435 = Inr [0x8B, 0xD9, 0x00, 0x00, 0x00]"
    by (simp add: pack_instruction_def to_bytes_def numeral_eq_Suc)
  have f3: "pack_instruction 94 308 = Inr [0x5E, 0x9A, 0x00, 0x00, 0x00]"
    by (simp add: pack_instruction_def to_bytes_def numeral_eq_Suc)
  have f4: "pack_instruction 69 989 = Inr [0xC5, 0xEE, 0x01, 0x00, 0x00]"
    by (simp add: pack_instruction_def to_bytes_def numeral_eq_Suc)
  show ?thesis using iff bad_a bad_b good f1 f2 f3 f4 by blast
qed

theorem pack_instruction_correct_witness:
  "(\<exists>w. pack_instruction 14 381 = Inr w \<and> length w = 5 \<and>
        from_bytes w = 14 OR push_bit 7 381) \<and>
   pack_instruction 128 0 = Inl (OpcodeRange 128) \<and>
   pack_instruction 14 (2 ^ 26) = Inl (OperandRange (2 ^ 26))"
  using pack_instruction_correct [of 14 381] pack_instruction_correct [of 128 0]
        pack_instruction_correct [of 14 "2 ^ 26"]
  by simp

text \<open>
  Claim C2, as the code has it. For every \<open>a\<close> in \<open>[0, 128)\<close> and \<open>b\<close> in
  \<open>[0, 2^26)\<close>, \<^verbatim>\<open>pack_instruction\<close> succeeds; decoding its word returns
  \<open>(OPCODE_NAMES[a], b)\<close> when \<open>a\<close> is one of the four opcodes 14, 11, 94, 69, and
  raises the unknown-opcode error for every other \<open>a\<close>.
\<close>

theorem decode_pack_roundtrip:
  assumes "0 \<le> a" "a < 128" "0 \<le> b" "b < 2 ^ 26"
  shows "\<exists>w. pack_instruction a b = Inr w \<and>
             (a \<in> {14, 11, 94, 69} \<longrightarrow>
                (\<exists>name. OPCODE_NAMES a = Some name \<and> decode_instruction w = Inr (name, b))) \<and>
             (a \<notin> {14, 11, 94, 69} \<longrightarrow> decode_instruction w = Inl (UnknownOpcode a))"
proof -
  have p: "pack_instruction a b = Inr (le_bytes 5 (a + 128 * b))"
    using assms by (rule pack_ok)
  have d: "decode_instruction (le_bytes 5 (a + 128 * b)) =
     (case OPCODE_NAMES a of None \<Rightarrow> Inl (UnknownOpcode a) | Some n \<Rightarrow> Inr (n, b))"
    using assms by (rule decode_pack)
  have known: "a \<in> {14, 11, 94, 69} \<Longrightarrow> \<exists>name. OPCODE_NAMES a = Some name"
    by (auto simp: OPCODE_NAMES_def)
  have unknown: "a \<notin> {14, 11, 94, 69} \<Longrightarrow> OPCODE_NAMES a = None"
    by (simp add: OPCODE_NAMES_def)
  have k: "\<exists>name. OPCODE_NAMES a = Some name \<and>
             decode_instruction (le_bytes 5 (a + 128 * b)) = Inr (name, b)"
    if mem: "a \<in> {14, 11, 94, 69}"
  proof -
    obtain name where n: "OPCODE_NAMES a = Some name" using known[OF mem] by blast
    from d n have "decode_instruction (le_bytes 5 (a + 128 * b)) = Inr (name, b)" by simp
    with n show ?thesis by blast
  qed
  have u: "decode_instruction (le_bytes 5 (a + 128 * b)) = Inl (UnknownOpcode a)"
    if "a \<notin> {14, 11, 94, 69}"
    using d unknown[OF that] by simp
  show ?thesis using p k u by blast
qed

theorem decode_pack_roundtrip_witness:
  "\<exists>w. pack_instruction 69 989 = Inr w \<and> decode_instruction w = Inr (''less'', 989)"
  using decode_pack_roundtrip [of 69 989] by (simp add: OPCODE_NAMES_def)

theorem decode_pack_unknown_opcode:
  "pack_instruction 1 0 = Inr [1, 0, 0, 0, 0] \<and>
   decode_instruction [1, 0, 0, 0, 0] = Inl (UnknownOpcode 1)"
  by (simp add: pack_instruction_def to_bytes_def numeral_eq_Suc decode_instruction_def
        OPCODE_NAMES_def)

section \<open>Properties of the interpreter loop\<close>

lemma run_loop_prefix:
  "loop_prefix k instructions memory l = Some (m, l') \<Longrightarrow>
   run_loop instructions memory l = run_loop instructions m l'"
proof (induction k arbitrary: memory l)
  case 0 then show ?case by simp
next
  case (Suc k)
  then show ?case
    by (subst run_loop.simps) (auto split: if_splits loop_step.splits)
qed

lemma loop_prefix_ip:
  "loop_prefix k instructions memory l = Some (m, l') \<Longrightarrow> ip m = ip memory + int k"
proof (induction k arbitrary: memory l)
  case 0 then show ?case by simp
next
  case (Suc k)
  then show ?case
    by (fastforce split: if_splits loop_step.splits dest: loop_body_Next_ip)
qed

lemma loop_body_raise_memory:
  assumes "ip memory < int (length instructions)"
    and "py_index instructions (ip memory) = Inr w"
    and "decode_instruction w = Inr (cmd, B)"
    and "cmd \<in> {''read_value'', ''write_value'', ''less''}"
    and "\<not> (0 \<le> B \<and> B < int (length (data memory)))"
  shows "loop_body instructions memory l =
         Raise (if cmd = ''write_value'' then WriteAddress B else ReadAddress B) memory"
  using assms by (auto simp: loop_body_def read_data_def write_data_def)

lemma run_loop_stop:
  "ip memory < int (length instructions) \<Longrightarrow> loop_body instructions memory l = Stop m l'
   \<Longrightarrow> run_loop instructions memory l = (Inr l', m)"
  by (subst run_loop.simps) simp

lemma run_loop_raise:
  "ip memory < int (length instructions) \<Longrightarrow> loop_body instructions memory l = Raise e m
   \<Longrightarrow> run_loop instructions memory l = (Inl e, m)"
  by (subst run_loop.simps) simp

lemma run_loop_end:
  "\<not> ip memory < int (length instructions) \<Longrightarrow> run_loop instructions memory l = (Inr l, memory)"
  by (subst run_loop.simps) simp

lemma loop_body_stack: "stack (step_memory (loop_body instructions memory l)) = stack memory"
  by (auto simp: loop_body_def Let_def write_data_def split: sum.splits prod.splits)

lemma run_loop_stack: "stack (snd (run_loop instructions memory l)) = stack memory"
proof (induction instructions memory l rule: run_loop.induct)
  case (1 instructions memory l)
  show ?case
  proof (cases "ip memory < int (length instructions)")
    case False then show ?thesis by (simp add: run_loop_end)
  next
    case True
    show ?thesis
    proof (cases "loop_body instructions memory l")
      case (Next m l')
      with True 1 have "stack (snd (run_loop instructions m l')) = stack m" by simp
      moreover have "stack m = stack memory" using loop_body_stack[of instructions memory l] Next by simp
      moreover have "run_loop instructions memory l = run_loop instructions m l'"
        using True Next by (subst run_loop.simps) simp
      ultimately show ?thesis by simp
    next
      case (Stop m l')
      then show ?thesis using True loop_body_stack[of instructions memory l]
        by (simp add: run_loop_stop)
    next
      case (Raise e m)
      then show ?thesis using True loop_body_stack[of instructions memory l]
        by (simp add: run_loop_raise)
    qed
  qed
qed

lemma run_program_stack: "stack (snd (run_program bytecode memory)) = stack memory"
proof -
  let ?r = "run_loop (slices bytecode 0) memory [LogStart (length (slices bytecode 0))]"
  have "stack (snd ?r) = stack memory" by (rule run_loop_stack)
  then show ?thesis
    by (cases ?r) (auto simp: run_program_def Let_def split: sum.splits)
qed


lemma slices_Nil: "length bytecode \<le> i \<Longrightarrow> slices bytecode i = []"
  by (subst slices.simps) simp

lemma slices_split:
  "5 dvd i \<Longrightarrow> i \<le> 5 * (length bytecode div 5) \<Longrightarrow>
   slices bytecode i =
     slices (take (5 * (length bytecode div 5)) bytecode) i @
     (if length bytecode mod 5 = 0 then [] else [drop (5 * (length bytecode div 5)) bytecode])"
proof (induction bytecode i rule: slices.induct)
  case (1 bytecode i)
  let ?k = "length bytecode div 5"
  let ?bc' = "take (5 * ?k) bytecode"
  have len': "length ?bc' = 5 * ?k" by simp
  show ?case
  proof (cases "i < 5 * ?k")
    case True
    then have i5: "i + 5 \<le> 5 * ?k" using "1.prems"(1) by (auto elim!: dvdE)
    have lt: "i < length bytecode" using True by simp
    have "5 dvd i + 5" using "1.prems"(1) by simp
    then have IH: "slices bytecode (i + 5) = slices ?bc' (i + 5) @
       (if length bytecode mod 5 = 0 then [] else [drop (5 * ?k) bytecode])"
      using "1.IH" lt i5 by simp
    have tk: "take 5 (drop i ?bc') = take 5 (drop i bytecode)"
      using i5 by (simp add: drop_take min_def)
    have l: "slices bytecode i = take 5 (drop i bytecode) # slices bytecode (i + 5)"
      using lt by (subst slices.simps) simp
    have r: "slices ?bc' i = take 5 (drop i ?bc') # slices ?bc' (i + 5)"
      using True by (subst slices.simps) simp
    show ?thesis unfolding l r IH tk by simp
  next
    case False
    then have i: "i = 5 * ?k" using "1.prems"(2) by simp
    have r: "slices ?bc' i = []" using i by (simp add: slices_Nil)
    show ?thesis
    proof (cases "length bytecode mod 5 = 0")
      case True
      then have "length bytecode = 5 * ?k" by presburger
      with True show ?thesis using r i by (simp add: slices_Nil)
    next
      case nz: False
      then have lt: "i < length bytecode" using i by presburger
      have "length bytecode < i + 5" using i by presburger
      then have "slices bytecode (i + 5) = []" "take 5 (drop i bytecode) = drop i bytecode"
        by (simp_all add: slices_Nil)
      then have "slices bytecode i = [drop i bytecode]"
        using lt by (subst slices.simps) simp
      then show ?thesis using r nz i by simp
    qed
  qed
qed

lemma length_slices: "length (slices bytecode i) = (length bytecode - i + 4) div 5"
proof (induction bytecode i rule: slices.induct)
  case (1 bytecode i)
  show ?case
  proof (cases "i < length bytecode")
    case True
    then have unf: "slices bytecode i = take 5 (drop i bytecode) # slices bytecode (i + 5)"
      by (subst slices.simps) simp
    have IH: "length (slices bytecode (i + 5)) = (length bytecode - (i + 5) + 4) div 5"
      using 1 True by simp
    show ?thesis
    proof (cases "i + 5 \<le> length bytecode")
      case True
      then have "length bytecode - i + 4 = (length bytecode - (i + 5) + 4) + 5" by simp
      then have "(length bytecode - i + 4) div 5 = (length bytecode - (i + 5) + 4) div 5 + 1"
        by (simp only: div_add_self2)
      then have e: "(length bytecode - i + 4) div 5 = Suc (length (slices bytecode (i + 5)))"
        by (simp only: IH Suc_eq_plus1)
      show ?thesis unfolding unf e by (simp only: length_Cons)
    next
      case False
      then have z: "length bytecode - (i + 5) = 0" by simp
      obtain d where d: "length bytecode - i = d" "1 \<le> d" "d \<le> 4"
        using True False by auto
      have "(d + 4) div 5 = 1" using d(2,3) by simp
      moreover have "length (slices bytecode (i + 5)) = 0" unfolding IH z by simp
      ultimately have e: "(length bytecode - i + 4) div 5 = Suc (length (slices bytecode (i + 5)))"
        unfolding d(1) by simp
      show ?thesis unfolding unf e by (simp only: length_Cons)
    qed
  next
    case False
    then show ?thesis by (simp add: slices_Nil)
  qed
qed

lemma length_slices_take:
  "length (slices (take (5 * (length bytecode div 5)) bytecode) 0) = length bytecode div 5"
proof -
  have "length (take (5 * (length bytecode div 5)) bytecode) = 5 * (length bytecode div 5)"
    by simp
  then have "length (slices (take (5 * (length bytecode div 5)) bytecode) 0) =
             (5 * (length bytecode div 5) + 4) div 5"
    by (simp only: length_slices)
  then show ?thesis by simp
qed

lemma py_index_append:
  "0 \<le> i \<Longrightarrow> i < int (length xs) \<Longrightarrow> py_index (xs @ ys) i = py_index xs i"
proof -
  assume "0 \<le> i" "i < int (length xs)"
  then have "nat i < length xs" by linarith
  then show ?thesis using \<open>0 \<le> i\<close> \<open>i < int (length xs)\<close>
    by (simp add: py_index_def nth_append)
qed

lemma loop_body_append:
  "0 \<le> ip memory \<Longrightarrow> ip memory < int (length instructions) \<Longrightarrow>
   loop_body (instructions @ extra) memory l = loop_body instructions memory l"
  by (simp add: loop_body_def py_index_append)

lemma loop_body_Stop_memory: "loop_body instructions memory l = Stop m l' \<Longrightarrow> m = memory"
  by (auto simp: loop_body_def Let_def split: sum.splits prod.splits if_splits)

lemma loop_body_fragment:
  assumes "ip memory = int (length instructions)" "length frag \<noteq> 5"
  shows "loop_body (instructions @ [frag]) memory l =
         Stop memory (l @ [LogDecodeError (ip memory) (InstructionLength (length frag))])"
  using assms by (simp add: loop_body_def py_index_def decode_instruction_def)

lemma run_loop_fragment:
  assumes "ip memory = int (length instructions)" "length frag \<noteq> 5"
  shows "run_loop (instructions @ [frag]) memory l =
         (Inr (l @ [LogDecodeError (ip memory) (InstructionLength (length frag))]), memory)"
  using assms by (subst run_loop.simps) (simp add: loop_body_fragment)

lemma run_loop_append:
  "0 \<le> ip memory \<Longrightarrow>
   run_loop (instructions @ [frag]) memory l =
     (case run_loop instructions memory l of
        (Inl e, m) \<Rightarrow> (Inl e, m)
      | (Inr l', m) \<Rightarrow>
          if ip m = int (length instructions) then run_loop (instructions @ [frag]) m l'
          else (Inr l', m))"
proof (induction instructions memory l rule: run_loop.induct)
  case (1 instructions memory l)
  show ?case
  proof (cases "ip memory < int (length instructions)")
    case False
    then show ?thesis by (simp add: run_loop_end)
  next
    case True
    then have lt: "ip memory < int (length (instructions @ [frag]))" by simp
    have body: "loop_body (instructions @ [frag]) memory l = loop_body instructions memory l"
      using "1.prems" True by (rule loop_body_append)
    show ?thesis
    proof (cases "loop_body instructions memory l")
      case (Next m l')
      have "ip m = ip memory + 1" using Next by (rule loop_body_Next_ip)
      then have "0 \<le> ip m" using "1.prems" by simp
      then have IH: "run_loop (instructions @ [frag]) m l' =
        (case run_loop instructions m l' of
          (Inl e, m) \<Rightarrow> (Inl e, m)
        | (Inr l', m) \<Rightarrow>
          if ip m = int (length instructions) then run_loop (instructions @ [frag]) m l'
          else (Inr l', m))"
        using "1.IH" True Next by simp
      have a: "run_loop (instructions @ [frag]) memory l = run_loop (instructions @ [frag]) m l'"
        using lt body Next by (subst run_loop.simps) simp
      have b: "run_loop instructions memory l = run_loop instructions m l'"
        using True Next by (subst run_loop.simps) simp
      show ?thesis unfolding a b by (rule IH)
    next
      case (Stop m l')
      then have m: "m = memory" by (rule loop_body_Stop_memory)
      have a: "run_loop (instructions @ [frag]) memory l = (Inr l', m)"
        using lt body Stop by (simp add: run_loop_stop)
      have b: "run_loop instructions memory l = (Inr l', m)"
        using True Stop by (simp add: run_loop_stop)
      show ?thesis unfolding a b using True m by simp
    next
      case (Raise e m)
      have a: "run_loop (instructions @ [frag]) memory l = (Inl e, m)"
        using lt body Raise by (simp add: run_loop_raise)
      have b: "run_loop instructions memory l = (Inl e, m)"
        using True Raise by (simp add: run_loop_raise)
      show ?thesis unfolding a b by simp
    qed
  qed
qed


lemma loop_body_log:
  "loop_body instructions memory l =
     (case loop_body instructions memory [] of
        Next m es \<Rightarrow> Next m (l @ es)
      | Stop m es \<Rightarrow> Stop m (l @ es)
      | Raise e m \<Rightarrow> Raise e m)"
  by (auto simp: loop_body_def Let_def split: sum.splits prod.splits)

lemma run_loop_log:
  "run_loop instructions memory l =
     (case run_loop instructions memory [] of
        (Inl e, m) \<Rightarrow> (Inl e, m)
      | (Inr es, m) \<Rightarrow> (Inr (l @ es), m))"
proof (induction "nat (int (length instructions) - ip memory)" arbitrary: memory l)
  case 0
  then have "\<not> ip memory < int (length instructions)" by simp
  then show ?case by (simp add: run_loop_end)
next
  case (Suc n)
  then have lt: "ip memory < int (length instructions)" by linarith
  show ?case
  proof (cases "loop_body instructions memory []")
    case (Next m es)
    then have b: "loop_body instructions memory l = Next m (l @ es)"
      by (subst loop_body_log) simp
    have "ip m = ip memory + 1" using Next by (rule loop_body_Next_ip)
    then have n: "n = nat (int (length instructions) - ip m)" using Suc.hyps(2) by linarith
    have a1: "run_loop instructions memory l = run_loop instructions m (l @ es)"
      using lt b by (subst run_loop.simps) simp
    have a2: "run_loop instructions memory [] = run_loop instructions m es"
      using lt Next by (subst run_loop.simps) simp
    have i1: "run_loop instructions m (l @ es) =
       (case run_loop instructions m [] of
          (Inl e, m') \<Rightarrow> (Inl e, m')
        | (Inr es', m') \<Rightarrow> (Inr ((l @ es) @ es'), m'))"
      by (rule Suc.hyps(1)[OF n])
    have i2: "run_loop instructions m es =
       (case run_loop instructions m [] of
          (Inl e, m') \<Rightarrow> (Inl e, m')
        | (Inr es', m') \<Rightarrow> (Inr (es @ es'), m'))"
      by (rule Suc.hyps(1)[OF n])
    show ?thesis
      unfolding a1 a2 i1 i2
      by (cases "run_loop instructions m []") (simp split: sum.splits)
  next
    case (Stop m es)
    then have b: "loop_body instructions memory l = Stop m (l @ es)"
      by (subst loop_body_log) simp
    show ?thesis using lt Stop b by (simp add: run_loop_stop)
  next
    case (Raise e m)
    then have b: "loop_body instructions memory l = Raise e m"
      by (subst loop_body_log) simp
    show ?thesis using lt Raise b by (simp add: run_loop_raise)
  qed
qed

lemma loop_prefix_bound:
  assumes "loop_prefix n (instructions @ extra) memory l = Some (m, l')"
    and "0 \<le> ip memory"
    and "\<forall>w \<in> set extra. length w \<noteq> 5"
  shows "n = 0 \<or> ip memory + int n \<le> int (length instructions)"
  using assms
proof (induction n arbitrary: memory l)
  case 0 then show ?case by simp
next
  case (Suc n)
  from Suc.prems(1) have lt: "ip memory < int (length (instructions @ extra))"
    by (simp split: if_splits)
  from Suc.prems(1) lt obtain m1 l1 where
    b: "loop_body (instructions @ extra) memory l = Next m1 l1" and
    r: "loop_prefix n (instructions @ extra) m1 l1 = Some (m, l')"
    by (auto split: loop_step.splits)
  have ip1: "ip m1 = ip memory + 1" using b by (rule loop_body_Next_ip)
  have inside: "ip memory < int (length instructions)"
  proof (rule ccontr)
    assume "\<not> ip memory < int (length instructions)"
    then have ge: "int (length instructions) \<le> ip memory" by simp
    then have "nat (ip memory) - length instructions < length extra" using lt by auto
    then have "extra ! (nat (ip memory) - length instructions) \<in> set extra" by simp
    moreover have "py_index (instructions @ extra) (ip memory) =
        Inr (extra ! (nat (ip memory) - length instructions))"
      using ge lt Suc.prems(2) by (auto simp: py_index_def nth_append)
    ultimately have "\<exists>w. py_index (instructions @ extra) (ip memory) = Inr w \<and> length w \<noteq> 5"
      using Suc.prems(3) by blast
    then show False using b
      by (auto simp: loop_body_def decode_instruction_def)
  qed
  have "n = 0 \<or> ip m1 + int n \<le> int (length instructions)"
    using Suc.IH[OF r] ip1 Suc.prems(2,3) by simp
  then show ?case using ip1 inside by auto
qed

section \<open>Properties of the interpreter\<close>

lemma run_program_reaches:
  assumes "loop_prefix n (slices bytecode 0) memory [LogStart (length (slices bytecode 0))] = Some (m, l)"
  shows "run_program bytecode memory =
     (case run_loop (slices bytecode 0) m l of
        (Inl e, m') \<Rightarrow> (Inl e, m')
      | (Inr l', m') \<Rightarrow>
          (Inr (l' @ [LogFinished (ip m'), LogFinalAcc (acc m'),
                      LogMemoryHead (take 16 (data m'))]), m'))"
  unfolding run_program_def Let_def run_loop_prefix[OF assms] by simp

lemma run_uvm_source_caught:
  assumes "strip source \<noteq> []"
    and "assemble_source (strip source) = Inr (bytecode, IR)"
    and "run_program bytecode (UVMMemory_init 2048) = (Inl e, m)"
  shows "run_uvm_source source =
           Report bytecode (CaughtRuntimeError e) (dump_memory_to_xml_str m 0 31)"
  using assms by (simp add: run_uvm_source_def Let_def)

lemma faulting_asm:
  "strip faulting_source \<noteq> [] \<and>
   assemble_source (strip faulting_source) =
     Inr ([0x8E, 3, 0, 0, 0, 0x0B, 0, 4, 0, 0], [(''load_const'', 7), (''read_value'', 2048)])"
  by (simp add: faulting_source_def assemble_source_def full_asm_def strip_def isspace_def
        splitlines_def is_linebreak_def parse_line_def strip_comment_def py_int_def int_space_def
        parse_unsigned_def is_digit_def digit_value_def asm_def asm_entry_def asm_load_const_def
        asm_read_value_def OP_LOAD_CONST_def OP_READ_def pack_instruction_def
        to_bytes_def numeral_eq_Suc)

text \<open>
  Memory errors in the loop of \<^verbatim>\<open>run_program\<close>. Only the decoding is inside a
  \<^verbatim>\<open>try\<close>; the decoding error and the unknown command are logged and leave the loop
  by \<^verbatim>\<open>break\<close>, so that the trace and the summary are returned. The calls of
  \<^verbatim>\<open>read_data\<close> and \<^verbatim>\<open>write_data\<close> are outside any \<^verbatim>\<open>try\<close>: when, after any number
  of iterations that went on normally, the instruction fetched is a \<^verbatim>\<open>read_value\<close>,
  \<^verbatim>\<open>write_value\<close> or \<^verbatim>\<open>less\<close> whose operand is not an address of the data memory,
  the \<^verbatim>\<open>IndexError\<close> leaves \<^verbatim>\<open>run_program\<close> and the whole log built so far is lost.
  The memory object is as the failing instruction found it. \<^verbatim>\<open>run_uvm_source\<close>, for a
  source that assembles to this bytecode, then reports the one line made from the
  exception where the log would be.
\<close>

theorem memory_error_propagates:
  assumes "loop_prefix n (slices bytecode 0) memory [LogStart (length (slices bytecode 0))] = Some (m, l)"
    and "ip m < int (length (slices bytecode 0))"
    and "py_index (slices bytecode 0) (ip m) = Inr w"
    and "decode_instruction w = Inr (cmd, B)"
    and "cmd \<in> {''read_value'', ''write_value'', ''less''}"
    and "\<not> (0 \<le> B \<and> B < int (length (data m)))"
  shows "run_program bytecode memory =
           (Inl (if cmd = ''write_value'' then WriteAddress B else ReadAddress B), m) \<and>
         (\<forall>source IR.
            strip source \<noteq> [] \<and> assemble_source (strip source) = Inr (bytecode, IR) \<and>
            memory = UVMMemory_init 2048 \<longrightarrow>
            run_uvm_source source =
              Report bytecode
                (CaughtRuntimeError (if cmd = ''write_value'' then WriteAddress B else ReadAddress B))
                (dump_memory_to_xml_str m 0 31))"
proof -
  have "loop_body (slices bytecode 0) m l =
          Raise (if cmd = ''write_value'' then WriteAddress B else ReadAddress B) m"
    using assms(2-6) by (rule loop_body_raise_memory)
  then have "run_loop (slices bytecode 0) m l =
          (Inl (if cmd = ''write_value'' then WriteAddress B else ReadAddress B), m)"
    using assms(2) by (rule run_loop_raise[rotated])
  then have r: "run_program bytecode memory =
           (Inl (if cmd = ''write_value'' then WriteAddress B else ReadAddress B), m)"
    by (simp add: run_program_reaches[OF assms(1)])
  have "run_uvm_source source =
          Report bytecode
            (CaughtRuntimeError (if cmd = ''write_value'' then WriteAddress B else ReadAddress B))
            (dump_memory_to_xml_str m 0 31)"
    if "strip source \<noteq> [] \<and> assemble_source (strip source) = Inr (bytecode, IR) \<and>
        memory = UVMMemory_init 2048" for source IR
    using that r run_uvm_source_caught[of source bytecode IR] by simp
  with r show ?thesis by blast
qed

theorem memory_error_propagates_witness:
  "run_program [0x8E, 3, 0, 0, 0, 0x0B, 0, 4, 0, 0] (UVMMemory_init 2048) =
     (Inl (ReadAddress 2048), (UVMMemory_init 2048)\<lparr>acc := 7, ip := 1\<rparr>) \<and>
   run_uvm_source faulting_source =
     Report [0x8E, 3, 0, 0, 0, 0x0B, 0, 4, 0, 0] (CaughtRuntimeError (ReadAddress 2048))
       (dump_memory_to_xml_str ((UVMMemory_init 2048)\<lparr>acc := 7, ip := 1\<rparr>) 0 31)"
proof -
  have h: "loop_prefix 1 (slices [0x8E, 3, 0, 0, 0, 0x0B, 0, 4, 0, 0] 0) (UVMMemory_init 2048)
             [LogStart (length (slices [0x8E, 3, 0, 0, 0, 0x0B, 0, 4, 0, 0] 0))] =
           Some ((UVMMemory_init 2048)\<lparr>acc := 7, ip := 1\<rparr>,
                 [LogStart 2, LogExec 0 ''load_const'' 7 0])"
    "ip ((UVMMemory_init 2048)\<lparr>acc := 7, ip := 1\<rparr>)
       < int (length (slices [0x8E, 3, 0, 0, 0, 0x0B, 0, 4, 0, 0] 0))"
    "py_index (slices [0x8E, 3, 0, 0, 0, 0x0B, 0, 4, 0, 0] 0)
       (ip ((UVMMemory_init 2048)\<lparr>acc := 7, ip := 1\<rparr>)) = Inr [0x0B, 0, 4, 0, 0]"
    "decode_instruction [0x0B, 0, 4, 0, 0] = Inr (''read_value'', 2048)"
    "''read_value'' \<in> {''read_value'', ''write_value'', ''less''}"
    "\<not> (0 \<le> (2048::int) \<and> 2048 < int (length (data ((UVMMemory_init 2048)\<lparr>acc := 7, ip := 1\<rparr>))))"
    by (simp_all add: slices.simps UVMMemory_init_def loop_body_def py_index_def
          decode_instruction_def OPCODE_NAMES_def)
  note T = memory_error_propagates [OF h]
  from T have a: "run_program [0x8E, 3, 0, 0, 0, 0x0B, 0, 4, 0, 0] (UVMMemory_init 2048) =
     (Inl (if ''read_value'' = ''write_value'' then WriteAddress 2048 else ReadAddress 2048),
      (UVMMemory_init 2048)\<lparr>acc := 7, ip := 1\<rparr>)"
    by (rule conjunct1)
  from T faulting_asm have b: "run_uvm_source faulting_source =
     Report [0x8E, 3, 0, 0, 0, 0x0B, 0, 4, 0, 0]
       (CaughtRuntimeError (if ''read_value'' = ''write_value'' then WriteAddress 2048
                            else ReadAddress 2048))
       (dump_memory_to_xml_str ((UVMMemory_init 2048)\<lparr>acc := 7, ip := 1\<rparr>) 0 31)"
    by blast
  from a b show ?thesis by simp
qed

text \<open>
  Claim C1 says that a memory access out of range is caught by the loop, recorded as an
  error entry, and that \<^verbatim>\<open>run_program\<close> returns a complete log, as it does for the
  other two run-time failures of the same loop. The code does not do so: on the program
  \<^verbatim>\<open>read_value; 2048\<close> and a fresh memory of 2048 cells \<^verbatim>\<open>run_program\<close> raises the
  \<^verbatim>\<open>IndexError\<close> of \<^verbatim>\<open>read_data\<close> and returns no log.
\<close>

theorem memory_error_not_caught:
  "run_program [0x0B, 0, 4, 0, 0] (UVMMemory_init 2048) =
     (Inl (ReadAddress 2048), UVMMemory_init 2048)"
  by (simp add: run_program_def slices.simps run_loop.simps UVMMemory_init_def loop_body_def
        py_index_def decode_instruction_def OPCODE_NAMES_def read_data_def)


text \<open>
  Claim C6. Executing \<^verbatim>\<open>less\<close> with an operand \<open>B\<close> that is an address of the data
  memory stores 1 into cell \<open>B\<close> when the previous content of the cell is less than the
  accumulator and 0 otherwise, leaves the accumulator as it is, and goes on to the next
  instruction.
\<close>

theorem less_semantics:
  assumes "py_index instructions (ip memory) = Inr w"
    and "decode_instruction w = Inr (''less'', B)"
    and "0 \<le> B" and "B < int (length (data memory))"
  shows "loop_body instructions memory l =
           Next (memory\<lparr>data := (data memory)[nat B :=
                            (if data memory ! nat B < acc memory then 1 else 0)],
                        ip := ip memory + 1\<rparr>)
                (l @ [LogExec (ip memory) ''less'' B (acc memory)]) \<and>
         data (step_memory (loop_body instructions memory l)) ! nat B =
           (if data memory ! nat B < acc memory then 1 else 0) \<and>
         acc (step_memory (loop_body instructions memory l)) = acc memory"
proof -
  have b: "loop_body instructions memory l =
           Next (memory\<lparr>data := (data memory)[nat B :=
                            (if data memory ! nat B < acc memory then 1 else 0)],
                        ip := ip memory + 1\<rparr>)
                (l @ [LogExec (ip memory) ''less'' B (acc memory)])"
    using assms by (simp add: loop_body_def read_data_def write_data_def Let_def)
  have "nat B < length (data memory)" using assms(3,4) by linarith
  then show ?thesis unfolding b by simp
qed


theorem less_semantics_witness:
  "loop_body [[0x45, 0, 0, 0, 0]] \<lparr>data = [5, 9], stack = [], ip = 0, acc = 3\<rparr> [] =
     Next \<lparr>data = [0, 9], stack = [], ip = 1, acc = 3\<rparr> [LogExec 0 ''less'' 0 3] \<and>
   loop_body [[0x45, 0, 0, 0, 0]] \<lparr>data = [2, 9], stack = [], ip = 0, acc = 3\<rparr> [] =
     Next \<lparr>data = [1, 9], stack = [], ip = 1, acc = 3\<rparr> [LogExec 0 ''less'' 0 3]"
  using less_semantics [of "[[0x45, 0, 0, 0, 0]]" "\<lparr>data = [5, 9], stack = [], ip = 0, acc = 3\<rparr>"
          "[0x45, 0, 0, 0, 0]" 0 "[]"]
        less_semantics [of "[[0x45, 0, 0, 0, 0]]" "\<lparr>data = [2, 9], stack = [], ip = 0, acc = 3\<rparr>"
          "[0x45, 0, 0, 0, 0]" 0 "[]"]
  by (simp add: py_index_def decode_instruction_def OPCODE_NAMES_def)

lemma decode_unknown:
  assumes "length w = 5" and "from_bytes w AND 0x7F \<notin> {14, 11, 94, 69}"
  shows "decode_instruction w = Inl (UnknownOpcode (from_bytes w AND 0x7F))"
  using assms by (simp add: decode_instruction_def OPCODE_NAMES_def Let_def)

text \<open>
  Claim C8. Decoding five bytes whose low 7 bits are none of 14, 11, 94, 69 raises the
  unknown-opcode error. When, after any number of iterations that went on normally,
  the loop fetches such a word, \<^verbatim>\<open>run_program\<close> appends the error entry, leaves the
  loop and returns the log with the final summary; the memory object (data,
  accumulator, instruction pointer) is as the iterations before left it.
\<close>

theorem unknown_opcode_halts:
  assumes "length w = 5" and "from_bytes w AND 0x7F \<notin> {14, 11, 94, 69}"
  shows "decode_instruction w = Inl (UnknownOpcode (from_bytes w AND 0x7F)) \<and>
         (\<forall>n bytecode memory m l.
            loop_prefix n (slices bytecode 0) memory [LogStart (length (slices bytecode 0))]
              = Some (m, l) \<and>
            ip m < int (length (slices bytecode 0)) \<and>
            py_index (slices bytecode 0) (ip m) = Inr w \<longrightarrow>
            run_program bytecode memory =
              (Inr (l @ [LogDecodeError (ip m) (UnknownOpcode (from_bytes w AND 0x7F)),
                         LogFinished (ip m), LogFinalAcc (acc m),
                         LogMemoryHead (take 16 (data m))]), m))"
proof (intro conjI allI impI)
  show d: "decode_instruction w = Inl (UnknownOpcode (from_bytes w AND 0x7F))"
    using assms by (rule decode_unknown)
  fix n bytecode memory m l
  assume h: "loop_prefix n (slices bytecode 0) memory [LogStart (length (slices bytecode 0))]
              = Some (m, l) \<and>
            ip m < int (length (slices bytecode 0)) \<and>
            py_index (slices bytecode 0) (ip m) = Inr w"
  then have "loop_body (slices bytecode 0) m l =
      Stop m (l @ [LogDecodeError (ip m) (UnknownOpcode (from_bytes w AND 0x7F))])"
    using d by (simp add: loop_body_def)
  then have "run_loop (slices bytecode 0) m l =
      (Inr (l @ [LogDecodeError (ip m) (UnknownOpcode (from_bytes w AND 0x7F))]), m)"
    using h by (simp add: run_loop_stop)
  then show "run_program bytecode memory =
              (Inr (l @ [LogDecodeError (ip m) (UnknownOpcode (from_bytes w AND 0x7F)),
                         LogFinished (ip m), LogFinalAcc (acc m),
                         LogMemoryHead (take 16 (data m))]), m)"
    using run_program_reaches[of n bytecode memory m l] h by simp
qed


theorem unknown_opcode_halts_witness:
  "decode_instruction [1, 0, 0, 0, 0] = Inl (UnknownOpcode 1) \<and>
   run_program [0x8E, 3, 0, 0, 0, 1, 0, 0, 0, 0] (UVMMemory_init 2048) =
     (Inr [LogStart 2, LogExec 0 ''load_const'' 7 0, LogDecodeError 1 (UnknownOpcode 1),
           LogFinished 1, LogFinalAcc 7, LogMemoryHead (take 16 (replicate 2048 0))],
      (UVMMemory_init 2048)\<lparr>acc := 7, ip := 1\<rparr>)"
proof -
  have a: "length [1, 0, 0, 0, 0 :: byte] = 5" by simp
  have b: "from_bytes [1, 0, 0, 0, 0] AND 0x7F \<notin> {14, 11, 94, 69}" by simp
  have c: "from_bytes [1, 0, 0, 0, 0] AND 0x7F = 1" by simp
  note t = unknown_opcode_halts [OF a b, unfolded c]
  have h: "loop_prefix 1 (slices [0x8E, 3, 0, 0, 0, 1, 0, 0, 0, 0] 0) (UVMMemory_init 2048)
             [LogStart (length (slices [0x8E, 3, 0, 0, 0, 1, 0, 0, 0, 0] 0))] =
           Some ((UVMMemory_init 2048)\<lparr>acc := 7, ip := 1\<rparr>,
                 [LogStart 2, LogExec 0 ''load_const'' 7 0]) \<and>
           ip ((UVMMemory_init 2048)\<lparr>acc := 7, ip := 1\<rparr>)
             < int (length (slices [0x8E, 3, 0, 0, 0, 1, 0, 0, 0, 0] 0)) \<and>
           py_index (slices [0x8E, 3, 0, 0, 0, 1, 0, 0, 0, 0] 0)
             (ip ((UVMMemory_init 2048)\<lparr>acc := 7, ip := 1\<rparr>)) = Inr [1, 0, 0, 0, 0]"
    by (simp add: slices.simps UVMMemory_init_def loop_body_def py_index_def
          decode_instruction_def OPCODE_NAMES_def)
  from t have "decode_instruction [1, 0, 0, 0, 0] = Inl (UnknownOpcode 1)" by blast
  moreover from t h have "run_program [0x8E, 3, 0, 0, 0, 1, 0, 0, 0, 0] (UVMMemory_init 2048) =
     (Inr ([LogStart 2, LogExec 0 ''load_const'' 7 0] @
           [LogDecodeError (ip ((UVMMemory_init 2048)\<lparr>acc := 7, ip := 1\<rparr>)) (UnknownOpcode 1),
            LogFinished (ip ((UVMMemory_init 2048)\<lparr>acc := 7, ip := 1\<rparr>)),
            LogFinalAcc (acc ((UVMMemory_init 2048)\<lparr>acc := 7, ip := 1\<rparr>)),
            LogMemoryHead (take 16 (data ((UVMMemory_init 2048)\<lparr>acc := 7, ip := 1\<rparr>)))]),
      (UVMMemory_init 2048)\<lparr>acc := 7, ip := 1\<rparr>)"
    by blast
  ultimately show ?thesis by (simp add: UVMMemory_init_def)
qed

text \<open>
  Claim C10. One iteration of the loop never changes the stack nor the size of the data
  memory; \<^verbatim>\<open>load_const\<close> and \<^verbatim>\<open>read_value\<close> leave the data memory as it is;
  \<^verbatim>\<open>write_value\<close> and \<^verbatim>\<open>less\<close> with operand \<open>B\<close> leave every cell other than \<open>B\<close> as
  it is. A whole run of \<^verbatim>\<open>run_program\<close> leaves the stack as it is.
\<close>

theorem frame_property:
  "stack (step_memory (loop_body instructions memory l)) = stack memory \<and>
   stack (snd (run_program bytecode memory)) = stack memory \<and>
   length (data (step_memory (loop_body instructions memory l))) = length (data memory) \<and>
   (\<forall>w cmd B.
      py_index instructions (ip memory) = Inr w \<and> decode_instruction w = Inr (cmd, B) \<longrightarrow>
      (cmd = ''load_const'' \<or> cmd = ''read_value'' \<longrightarrow>
         data (step_memory (loop_body instructions memory l)) = data memory) \<and>
      (cmd = ''write_value'' \<or> cmd = ''less'' \<longrightarrow>
         (\<forall>i < length (data memory). i \<noteq> nat B \<longrightarrow>
            data (step_memory (loop_body instructions memory l)) ! i = data memory ! i)))"
proof (intro conjI allI impI)
  show "stack (step_memory (loop_body instructions memory l)) = stack memory"
    by (rule loop_body_stack)
  show "stack (snd (run_program bytecode memory)) = stack memory"
    by (rule run_program_stack)
  show "length (data (step_memory (loop_body instructions memory l))) = length (data memory)"
    by (auto simp: loop_body_def Let_def write_data_def read_data_def
             split: sum.splits prod.splits)
next
  fix w cmd B
  assume h: "py_index instructions (ip memory) = Inr w \<and> decode_instruction w = Inr (cmd, B)"
  {
    assume "cmd = ''load_const'' \<or> cmd = ''read_value''"
    then show "data (step_memory (loop_body instructions memory l)) = data memory"
      using h by (auto simp: loop_body_def Let_def read_data_def split: sum.splits)
  }
  {
    fix i
    assume "cmd = ''write_value'' \<or> cmd = ''less''" "i < length (data memory)" "i \<noteq> nat B"
    then show "data (step_memory (loop_body instructions memory l)) ! i = data memory ! i"
      using h by (auto simp: loop_body_def Let_def read_data_def write_data_def
                       split: sum.splits)
  }
qed

theorem frame_property_witness:
  "data (step_memory (loop_body [[0xDE, 0, 0, 0, 0]]
           \<lparr>data = [5, 9, 4], stack = [], ip = 0, acc = 3\<rparr> [])) ! 0 = 5 \<and>
   data (step_memory (loop_body [[0xDE, 0, 0, 0, 0]]
           \<lparr>data = [5, 9, 4], stack = [], ip = 0, acc = 3\<rparr> [])) ! 2 = 4"
proof -
  note t = frame_property [of "[[0xDE, 0, 0, 0, 0]]"
      "\<lparr>data = [5, 9, 4], stack = [], ip = 0, acc = 3\<rparr>" "[]" "[]"]
  have h: "py_index [[0xDE, 0, 0, 0, 0]] (ip \<lparr>data = [5, 9, 4], stack = [], ip = 0, acc = 3\<rparr>)
             = Inr [0xDE, 0, 0, 0, 0] \<and>
           decode_instruction [0xDE, 0, 0, 0, 0] = Inr (''write_value'', 1)"
    by (simp add: py_index_def decode_instruction_def OPCODE_NAMES_def)
  from t h have "\<forall>i < length (data \<lparr>data = [5, 9, 4], stack = [], ip = 0, acc = 3\<rparr>).
      i \<noteq> nat 1 \<longrightarrow>
      data (step_memory (loop_body [[0xDE, 0, 0, 0, 0]]
           \<lparr>data = [5, 9, 4], stack = [], ip = 0, acc = 3\<rparr> [])) ! i =
      data \<lparr>data = [5, 9, 4], stack = [], ip = 0, acc = 3\<rparr> ! i"
    by blast
  then show ?thesis by simp
qed

lemma run_program_via_empty_log:
  "run_program bytecode memory =
     (case run_loop (slices bytecode 0) memory [] of
        (Inl e, m) \<Rightarrow> (Inl e, m)
      | (Inr es, m) \<Rightarrow>
          (Inr ([LogStart (length (slices bytecode 0))] @ es @
                [LogFinished (ip m), LogFinalAcc (acc m), LogMemoryHead (take 16 (data m))]), m))"
  unfolding run_program_def Let_def
  by (subst run_loop_log) (simp split: prod.splits sum.splits)

lemma run_loop_with_fragment:
  assumes "0 \<le> ip memory" "length frag \<noteq> 5"
  shows "run_loop (instructions @ [frag]) memory [] =
     (case run_loop instructions memory [] of
        (Inl e, m) \<Rightarrow> (Inl e, m)
      | (Inr es, m) \<Rightarrow>
          (Inr (es @ (if ip m = int (length instructions)
                      then [LogDecodeError (ip m) (InstructionLength (length frag))] else [])), m))"
proof -
  have "run_loop (instructions @ [frag]) memory [] =
     (case run_loop instructions memory [] of
        (Inl e, m) \<Rightarrow> (Inl e, m)
      | (Inr l', m) \<Rightarrow>
          if ip m = int (length instructions) then run_loop (instructions @ [frag]) m l'
          else (Inr l', m))"
    using assms(1) by (rule run_loop_append)
  then show ?thesis
    using assms(2) by (auto simp: run_loop_fragment split: prod.splits sum.splits)
qed

lemma slices_fragment:
  assumes "length bytecode mod 5 \<noteq> 0"
  shows "slices bytecode 0 =
           slices (take (5 * (length bytecode div 5)) bytecode) 0 @
           [drop (5 * (length bytecode div 5)) bytecode]"
    and "length (drop (5 * (length bytecode div 5)) bytecode) = length bytecode mod 5"
    and "length (drop (5 * (length bytecode div 5)) bytecode) \<noteq> 5"
proof -
  show "slices bytecode 0 =
           slices (take (5 * (length bytecode div 5)) bytecode) 0 @
           [drop (5 * (length bytecode div 5)) bytecode]"
    using slices_split[of 0 bytecode] assms by simp
  show l: "length (drop (5 * (length bytecode div 5)) bytecode) = length bytecode mod 5"
    by (simp add: minus_mult_div_eq_mod)
  have "length bytecode mod 5 < 5" by simp
  then show "length (drop (5 * (length bytecode div 5)) bytecode) \<noteq> 5"
    unfolding l by linarith
qed

lemma slices_no_fragment:
  assumes "length bytecode mod 5 = 0"
  shows "take (5 * (length bytecode div 5)) bytecode = bytecode"
proof -
  have "5 * (length bytecode div 5) = length bytecode" using assms by presburger
  then show ?thesis by simp
qed


lemma run_program_truncated:
  "run_program (take (5 * (length bytecode div 5)) bytecode) memory =
     (case run_loop (slices (take (5 * (length bytecode div 5)) bytecode) 0) memory [] of
        (Inl e, m) \<Rightarrow> (Inl e, m)
      | (Inr es, m) \<Rightarrow>
          (Inr ([LogStart (length bytecode div 5)] @ es @
                [LogFinished (ip m), LogFinalAcc (acc m), LogMemoryHead (take 16 (data m))]), m))"
  by (subst run_program_via_empty_log) (simp only: length_slices_take)

lemma run_program_fragment:
  assumes "0 \<le> ip memory" "length bytecode mod 5 \<noteq> 0"
  shows "run_program bytecode memory =
     (case run_loop (slices (take (5 * (length bytecode div 5)) bytecode) 0) memory [] of
        (Inl e, m) \<Rightarrow> (Inl e, m)
      | (Inr es, m) \<Rightarrow>
          (Inr ([LogStart (length bytecode div 5 + 1)] @ es @
                (if ip m = int (length bytecode div 5)
                 then [LogDecodeError (ip m) (InstructionLength (length bytecode mod 5))]
                 else []) @
                [LogFinished (ip m), LogFinalAcc (acc m), LogMemoryHead (take 16 (data m))]), m))"
proof -
  let ?I' = "slices (take (5 * (length bytecode div 5)) bytecode) 0"
  let ?frag = "drop (5 * (length bytecode div 5)) bytecode"
  have sp: "slices bytecode 0 = ?I' @ [?frag]" using assms(2) by (rule slices_fragment(1))
  have lf: "length ?frag = length bytecode mod 5" using assms(2) by (rule slices_fragment(2))
  have n5: "length ?frag \<noteq> 5" using assms(2) by (rule slices_fragment(3))
  have len: "length ?I' = length bytecode div 5" by (rule length_slices_take)
  have rl: "run_loop (?I' @ [?frag]) memory [] =
     (case run_loop ?I' memory [] of
        (Inl e, m) \<Rightarrow> (Inl e, m)
      | (Inr es, m) \<Rightarrow>
          (Inr (es @ (if ip m = int (length ?I')
                      then [LogDecodeError (ip m) (InstructionLength (length ?frag))] else [])), m))"
    using assms(1) n5 by (rule run_loop_with_fragment)
  show ?thesis
    by (subst run_program_via_empty_log)
       (simp only: sp rl, simp only: len lf, simp add: len split: prod.splits sum.splits)
qed

text \<open>
  Claim C3, as the code has it. The slices are taken every 5 bytes up to the end of the
  bytecode, so a trailing fragment of 1 to 4 bytes is one more entry of the instruction
  list. From a memory whose instruction pointer is not negative: the run ends with the
  same memory object (data, accumulator, instruction pointer) as the run of the bytecode
  truncated to whole words, and raises whenever that one raises; no more than
  \<open>len(bytecode) // 5\<close> iterations go on to a next one; but when the instruction pointer
  reaches the fragment, the fragment is fetched, its decoding fails on the length, and
  the error entry for it is appended to the log before the loop is left.
\<close>

theorem trailing_fragment:
  assumes "0 \<le> ip memory"
  shows "snd (run_program bytecode memory) =
           snd (run_program (take (5 * (length bytecode div 5)) bytecode) memory) \<and>
         (\<forall>e. fst (run_program (take (5 * (length bytecode div 5)) bytecode) memory) = Inl e \<longrightarrow>
              fst (run_program bytecode memory) = Inl e) \<and>
         (length bytecode mod 5 \<noteq> 0 \<longrightarrow>
            length (slices bytecode 0) = length bytecode div 5 + 1) \<and>
         (\<forall>lg. length bytecode mod 5 \<noteq> 0 \<and>
               fst (run_program (take (5 * (length bytecode div 5)) bytecode) memory) = Inr lg \<and>
               ip (snd (run_program (take (5 * (length bytecode div 5)) bytecode) memory))
                 = int (length bytecode div 5) \<longrightarrow>
               (\<exists>lg'. fst (run_program bytecode memory) = Inr lg' \<and>
                      LogDecodeError (int (length bytecode div 5))
                        (InstructionLength (length bytecode mod 5)) \<in> set lg')) \<and>
         (\<forall>n l m l'. loop_prefix n (slices bytecode 0) memory l = Some (m, l') \<longrightarrow>
               n \<le> length bytecode div 5)"
proof (cases "length bytecode mod 5 = 0")
  case True
  then have same: "take (5 * (length bytecode div 5)) bytecode = bytecode"
    by (rule slices_no_fragment)
  have len: "length (slices bytecode 0) = length bytecode div 5"
    using length_slices_take[of bytecode] same by simp
  have bound: "n \<le> length bytecode div 5"
    if "loop_prefix n (slices bytecode 0) memory l = Some (m, l')" for n l m l'
  proof -
    have "loop_prefix n (slices bytecode 0 @ []) memory l = Some (m, l')" using that by simp
    then have "n = 0 \<or> ip memory + int n \<le> int (length (slices bytecode 0))"
      using assms by (rule loop_prefix_bound) simp
    then show ?thesis using assms len by auto
  qed
  show ?thesis using True same bound by auto
next
  case False
  let ?I' = "slices (take (5 * (length bytecode div 5)) bytecode) 0"
  let ?frag = "drop (5 * (length bytecode div 5)) bytecode"
  note A = run_program_truncated[of bytecode memory]
  note B = run_program_fragment[OF assms False]
  have sp: "slices bytecode 0 = ?I' @ [?frag]" using False by (rule slices_fragment(1))
  have len: "length ?I' = length bytecode div 5" by (rule length_slices_take)
  have c1: "snd (run_program bytecode memory) =
           snd (run_program (take (5 * (length bytecode div 5)) bytecode) memory)"
    unfolding A B by (simp split: prod.splits sum.splits)
  have c2: "fst (run_program bytecode memory) = Inl e"
    if "fst (run_program (take (5 * (length bytecode div 5)) bytecode) memory) = Inl e" for e
    using that unfolding A B by (simp split: prod.splits sum.splits)
  have c3: "length (slices bytecode 0) = length bytecode div 5 + 1"
    unfolding sp using len by simp
  have c4: "\<exists>lg'. fst (run_program bytecode memory) = Inr lg' \<and>
                 LogDecodeError (int (length bytecode div 5))
                   (InstructionLength (length bytecode mod 5)) \<in> set lg'"
    if "fst (run_program (take (5 * (length bytecode div 5)) bytecode) memory) = Inr lg"
      and "ip (snd (run_program (take (5 * (length bytecode div 5)) bytecode) memory))
             = int (length bytecode div 5)" for lg
    using that unfolding A B by (auto split: prod.splits sum.splits)
  have c5: "n \<le> length bytecode div 5"
    if "loop_prefix n (slices bytecode 0) memory l = Some (m, l')" for n l m l'
  proof -
    have "loop_prefix n (?I' @ [?frag]) memory l = Some (m, l')" using that sp by simp
    then have "n = 0 \<or> ip memory + int n \<le> int (length ?I')"
      using assms by (rule loop_prefix_bound) (simp add: slices_fragment(3)[OF False])
    then show ?thesis using assms len by auto
  qed
  show ?thesis using c1 c2 c3 c4 c5 by blast
qed


theorem trailing_fragment_witness:
  "snd (run_program [0x8E, 0xBE, 0, 0, 0, 7] (UVMMemory_init 2048)) =
     snd (run_program [0x8E, 0xBE, 0, 0, 0] (UVMMemory_init 2048)) \<and>
   (\<exists>lg'. fst (run_program [0x8E, 0xBE, 0, 0, 0, 7] (UVMMemory_init 2048)) = Inr lg' \<and>
          LogDecodeError 1 (InstructionLength 1) \<in> set lg')"
proof -
  have h: "0 \<le> ip (UVMMemory_init 2048)" by (simp add: UVMMemory_init_def)
  have t: "take (5 * (length [0x8E, 0xBE, 0, 0, 0, 7 :: byte] div 5)) [0x8E, 0xBE, 0, 0, 0, 7 :: byte]
             = [0x8E, 0xBE, 0, 0, 0]" by simp
  have r: "run_program [0x8E, 0xBE, 0, 0, 0] (UVMMemory_init 2048) =
     (Inr [LogStart 1, LogExec 0 ''load_const'' 381 0, LogFinished 1, LogFinalAcc 381,
           LogMemoryHead (take 16 (replicate 2048 0))],
      (UVMMemory_init 2048)\<lparr>acc := 381, ip := 1\<rparr>)"
    by (simp add: run_program_def slices.simps run_loop.simps UVMMemory_init_def loop_body_def
          py_index_def decode_instruction_def OPCODE_NAMES_def)
  note T = trailing_fragment [OF h, of "[0x8E, 0xBE, 0, 0, 0, 7]", unfolded t]
  from T have a: "snd (run_program [0x8E, 0xBE, 0, 0, 0, 7] (UVMMemory_init 2048)) =
     snd (run_program [0x8E, 0xBE, 0, 0, 0] (UVMMemory_init 2048))" by blast
  have p: "length [0x8E, 0xBE, 0, 0, 0, 7 :: byte] mod 5 \<noteq> 0 \<and>
        fst (run_program [0x8E, 0xBE, 0, 0, 0] (UVMMemory_init 2048)) =
          Inr [LogStart 1, LogExec 0 ''load_const'' 381 0, LogFinished 1, LogFinalAcc 381,
               LogMemoryHead (take 16 (replicate 2048 0))] \<and>
        ip (snd (run_program [0x8E, 0xBE, 0, 0, 0] (UVMMemory_init 2048)))
          = int (length [0x8E, 0xBE, 0, 0, 0, 7 :: byte] div 5)"
    unfolding r by simp
  from T p have "\<exists>lg'. fst (run_program [0x8E, 0xBE, 0, 0, 0, 7] (UVMMemory_init 2048)) = Inr lg' \<and>
      LogDecodeError (int (length [0x8E, 0xBE, 0, 0, 0, 7 :: byte] div 5))
         (InstructionLength (length [0x8E, 0xBE, 0, 0, 0, 7 :: byte] mod 5)) \<in> set lg'"
    by blast
  then have b: "\<exists>lg'. fst (run_program [0x8E, 0xBE, 0, 0, 0, 7] (UVMMemory_init 2048)) = Inr lg' \<and>
      LogDecodeError 1 (InstructionLength 1) \<in> set lg'" by simp
  from a b show ?thesis by blast
qed

text \<open>
  The claim C3 as stated fails: with one more byte after a \<^verbatim>\<open>load_const\<close> word, the log
  counts two instructions and holds a decoding error at address 1, which the run of the
  five bytes alone does not have.
\<close>

theorem fragment_decode_error_logged:
  "fst (run_program [0x8E, 0xBE, 0, 0, 0, 7] (UVMMemory_init 2048)) =
     Inr [LogStart 2, LogExec 0 ''load_const'' 381 0, LogDecodeError 1 (InstructionLength 1),
          LogFinished 1, LogFinalAcc 381, LogMemoryHead (take 16 (replicate 2048 0))] \<and>
   fst (run_program [0x8E, 0xBE, 0, 0, 0] (UVMMemory_init 2048)) =
     Inr [LogStart 1, LogExec 0 ''load_const'' 381 0,
          LogFinished 1, LogFinalAcc 381, LogMemoryHead (take 16 (replicate 2048 0))]"
  by (simp add: run_program_def slices.simps run_loop.simps UVMMemory_init_def loop_body_def
        py_index_def decode_instruction_def OPCODE_NAMES_def)

lemma example_asm:
  "full_asm example_source =
     Inr ([0x8E, 2, 0, 0, 0, 0x5E, 0, 0, 0, 0, 0x8E, 1, 0, 0, 0, 0x45, 0, 0, 0, 0],
          [(''load_const'', 5), (''write_value'', 0), (''load_const'', 3), (''less'', 0)])"
  by (simp add: example_source_def full_asm_def strip_def isspace_def splitlines_def
        is_linebreak_def parse_line_def strip_comment_def py_int_def int_space_def parse_unsigned_def is_digit_def
        digit_value_def asm_def asm_entry_def asm_load_const_def asm_write_value_def
        asm_less_def OP_LOAD_CONST_def OP_WRITE_def OP_LESS_def pack_instruction_def
        to_bytes_def numeral_eq_Suc)

lemma example_run:
  "run_program [0x8E, 2, 0, 0, 0, 0x5E, 0, 0, 0, 0, 0x8E, 1, 0, 0, 0, 0x45, 0, 0, 0, 0]
     (UVMMemory_init 2048) =
     (Inr [LogStart 4, LogExec 0 ''load_const'' 5 0, LogExec 1 ''write_value'' 0 5,
           LogExec 2 ''load_const'' 3 5, LogExec 3 ''less'' 0 3,
           LogFinished 4, LogFinalAcc 3, LogMemoryHead (take 16 ((replicate 2048 0)[0 := 0]))],
      \<lparr>data = (replicate 2048 0)[0 := 0], stack = [], ip = 4, acc = 3\<rparr>)"
  by (simp add: run_program_def slices.simps run_loop.simps UVMMemory_init_def loop_body_def
        py_index_def decode_instruction_def OPCODE_NAMES_def read_data_def write_data_def)


text \<open>
  Claim C4, as the code has it. The example program assembles to four words; running
  them on a fresh memory of 2048 cells ends normally with instruction pointer 4 (the
  number of instructions), accumulator 3 and \<open>memory[0] = 0\<close>, since \<open>5 < 3\<close> is false.
\<close>

theorem example_program:
  "full_asm example_source =
     Inr ([0x8E, 2, 0, 0, 0, 0x5E, 0, 0, 0, 0, 0x8E, 1, 0, 0, 0, 0x45, 0, 0, 0, 0],
          [(''load_const'', 5), (''write_value'', 0), (''load_const'', 3), (''less'', 0)]) \<and>
   fst (run_program [0x8E, 2, 0, 0, 0, 0x5E, 0, 0, 0, 0, 0x8E, 1, 0, 0, 0, 0x45, 0, 0, 0, 0]
          (UVMMemory_init 2048)) =
     Inr [LogStart 4, LogExec 0 ''load_const'' 5 0, LogExec 1 ''write_value'' 0 5,
          LogExec 2 ''load_const'' 3 5, LogExec 3 ''less'' 0 3,
          LogFinished 4, LogFinalAcc 3, LogMemoryHead (take 16 ((replicate 2048 0)[0 := 0]))] \<and>
   data (snd (run_program [0x8E, 2, 0, 0, 0, 0x5E, 0, 0, 0, 0, 0x8E, 1, 0, 0, 0, 0x45, 0, 0, 0, 0]
          (UVMMemory_init 2048))) ! 0 = 0 \<and>
   acc (snd (run_program [0x8E, 2, 0, 0, 0, 0x5E, 0, 0, 0, 0, 0x8E, 1, 0, 0, 0, 0x45, 0, 0, 0, 0]
          (UVMMemory_init 2048))) = 3 \<and>
   ip (snd (run_program [0x8E, 2, 0, 0, 0, 0x5E, 0, 0, 0, 0, 0x8E, 1, 0, 0, 0, 0x45, 0, 0, 0, 0]
          (UVMMemory_init 2048))) = 4 \<and>
   length (slices [0x8E, 2, 0, 0, 0, 0x5E, 0, 0, 0, 0, 0x8E, 1, 0, 0, 0, 0x45, 0, 0, 0, 0] 0) = 4"
  unfolding example_run by (simp add: example_asm length_slices)

text \<open>
  The claim C4 as stated fails: after the example program the cell \<open>memory[0]\<close> holds 0,
  not 1.
\<close>

theorem cell_zero_after_example:
  "full_asm example_source =
     Inr ([0x8E, 2, 0, 0, 0, 0x5E, 0, 0, 0, 0, 0x8E, 1, 0, 0, 0, 0x45, 0, 0, 0, 0],
          [(''load_const'', 5), (''write_value'', 0), (''load_const'', 3), (''less'', 0)]) \<and>
   data (snd (run_program [0x8E, 2, 0, 0, 0, 0x5E, 0, 0, 0, 0, 0x8E, 1, 0, 0, 0, 0x45, 0, 0, 0, 0]
          (UVMMemory_init 2048))) ! 0 \<noteq> 1"
  unfolding example_run by (simp add: example_asm)

section \<open>Properties of the assembler\<close>

lemma split_on_nonempty: "split_on sep s \<noteq> []"
  by (induction s) auto

lemma hd_split_on: "hd (split_on sep s) = takeWhile (\<lambda>c. c \<noteq> sep) s"
  by (induction s) auto

lemma tl_split_on:
  "tl (split_on sep s) =
     (case dropWhile (\<lambda>c. c \<noteq> sep) s of [] \<Rightarrow> [] | c # rest \<Rightarrow> split_on sep rest)"
  by (induction s) auto

lemma split_on_first: "split_on sep s ! 0 = takeWhile (\<lambda>c. c \<noteq> sep) s"
  using split_on_nonempty[of sep s] hd_split_on[of sep s] by (simp add: hd_conv_nth)

lemma length_split_on: "1 < length (split_on sep s) \<longleftrightarrow> sep \<in> set s"
proof -
  have a: "1 < length (split_on sep s) \<longleftrightarrow> tl (split_on sep s) \<noteq> []"
    using split_on_nonempty[of sep s] by (cases "split_on sep s") auto
  have b: "tl (split_on sep s) \<noteq> [] \<longleftrightarrow> dropWhile (\<lambda>c. c \<noteq> sep) s \<noteq> []"
  proof (cases "dropWhile (\<lambda>c. c \<noteq> sep) s")
    case Nil
    then show ?thesis by (simp only: tl_split_on list.case) simp
  next
    case (Cons c rest)
    then show ?thesis by (simp only: tl_split_on list.case) (simp add: split_on_nonempty)
  qed
  have c: "dropWhile (\<lambda>c. c \<noteq> sep) s \<noteq> [] \<longleftrightarrow> sep \<in> set s"
    by (auto simp: dropWhile_eq_Nil_conv)
  show ?thesis using a b c by simp
qed

lemma split_on_second:
  assumes "sep \<in> set s"
  shows "split_on sep s ! 1 = takeWhile (\<lambda>c. c \<noteq> sep) (drop 1 (dropWhile (\<lambda>c. c \<noteq> sep) s))"
proof -
  have ne: "dropWhile (\<lambda>c. c \<noteq> sep) s \<noteq> []" using assms by (auto simp: dropWhile_eq_Nil_conv)
  then obtain c rest where d: "dropWhile (\<lambda>c. c \<noteq> sep) s = c # rest"
    by (cases "dropWhile (\<lambda>c. c \<noteq> sep) s") auto
  have t: "tl (split_on sep s) = split_on sep rest" by (simp add: tl_split_on d)
  have "split_on sep s ! 1 = hd (tl (split_on sep s))"
    using split_on_nonempty[of sep s] split_on_nonempty[of sep rest] t
    by (cases "split_on sep s") (auto simp: hd_conv_nth)
  then show ?thesis by (simp add: t hd_split_on d)
qed

lemma parse_lines_fail:
  "\<exists>line \<in> set lines. \<exists>e. parse_line line = Inl e \<Longrightarrow> \<exists>e. parse_lines lines IR = Inl e"
proof (induction lines arbitrary: IR)
  case Nil then show ?case by simp
next
  case (Cons line lines)
  show ?case
  proof (cases "parse_line line")
    case (Inl e) then show ?thesis by simp
  next
    case (Inr r)
    then have "\<exists>l \<in> set lines. \<exists>e. parse_line l = Inl e" using Cons.prems by auto
    then show ?thesis using Cons.IH Inr by (cases r) auto
  qed
qed

lemma parse_lines_ok:
  "\<forall>line \<in> set lines. \<forall>e. parse_line line \<noteq> Inl e \<Longrightarrow>
   parse_lines lines IR =
     Inr (IR @ concat (map (\<lambda>line. case parse_line line of Inr (Some entry) \<Rightarrow> [entry] | _ \<Rightarrow> [])
                       lines))"
proof (induction lines arbitrary: IR)
  case Nil then show ?case by simp
next
  case (Cons line lines)
  then show ?case by (auto split: sum.splits option.splits)
qed

lemma asm_loop_fail:
  "\<exists>entry \<in> set IR. \<exists>e. asm_entry entry = Inl e \<Longrightarrow> \<exists>e. asm_loop IR bytecode = Inl e"
proof (induction IR arbitrary: bytecode)
  case Nil then show ?case by simp
next
  case (Cons entry IR)
  show ?case
  proof (cases "asm_entry entry")
    case (Inl e) then show ?thesis by simp
  next
    case (Inr w)
    then have "\<exists>en \<in> set IR. \<exists>e. asm_entry en = Inl e" using Cons.prems by auto
    then show ?thesis using Cons.IH Inr by simp
  qed
qed

lemma asm_loop_ok:
  "map asm_entry IR = map Inr ws \<Longrightarrow> asm_loop IR bytecode = Inr (bytecode @ concat ws)"
proof (induction IR arbitrary: bytecode ws)
  case Nil then show ?case by simp
next
  case (Cons entry IR)
  then obtain w ws' where ws: "ws = w # ws'" by (cases ws) auto
  with Cons.prems have e: "asm_entry entry = Inr w" and r: "map asm_entry IR = map Inr ws'"
    by auto
  show ?case using Cons.IH[OF r] e ws by simp
qed

lemma pack_fail_iff:
  assumes "0 \<le> c" "c < 128"
  shows "(\<exists>e. pack_instruction c arg = Inl e) \<longleftrightarrow> (arg < 0 \<or> 2 ^ 26 \<le> arg)"
proof (cases "0 \<le> arg \<and> arg < 2 ^ 26")
  case True
  then obtain w where "pack_instruction c arg = Inr w"
    using pack_length_value[of c arg] assms by blast
  then show ?thesis using True by simp
next
  case False
  then have "pack_instruction c arg = Inl (OperandRange arg)"
    using assms by (auto simp: pack_instruction_def)
  then show ?thesis using False by auto
qed

lemma pack_length:
  assumes "0 \<le> c" "c < 128" "pack_instruction c arg = Inr w"
  shows "length w = 5"
proof -
  have "\<not> (arg < 0 \<or> 2 ^ 26 \<le> arg)"
    using pack_fail_iff[OF assms(1,2), of arg] assms(3) by auto
  then obtain w' where "pack_instruction c arg = Inr w'" "length w' = 5"
    using pack_length_value[of c arg] assms(1,2) by auto
  then show ?thesis using assms(3) by simp
qed

lemma asm_entry_known:
  assumes "op \<in> {''load_const'', ''read_value'', ''write_value'', ''less''}"
  shows "\<exists>c. 0 \<le> c \<and> c < 128 \<and> asm_entry (op, arg) = pack_instruction c arg"
proof -
  consider "op = ''load_const''" | "op = ''read_value''" | "op = ''write_value''" | "op = ''less''"
    using assms by blast
  then show ?thesis
  proof cases
    case 1
    then have "asm_entry (op, arg) = pack_instruction 14 arg"
      by (simp add: asm_entry_def asm_load_const_def OP_LOAD_CONST_def)
    then show ?thesis by (intro exI[of _ 14]) simp
  next
    case 2
    then have "asm_entry (op, arg) = pack_instruction 11 arg"
      by (simp add: asm_entry_def asm_read_value_def OP_READ_def)
    then show ?thesis by (intro exI[of _ 11]) simp
  next
    case 3
    then have "asm_entry (op, arg) = pack_instruction 94 arg"
      by (simp add: asm_entry_def asm_write_value_def OP_WRITE_def)
    then show ?thesis by (intro exI[of _ 94]) simp
  next
    case 4
    then have "asm_entry (op, arg) = pack_instruction 69 arg"
      by (simp add: asm_entry_def asm_less_def OP_LESS_def)
    then show ?thesis by (intro exI[of _ 69]) simp
  qed
qed

lemma asm_entry_unknown:
  assumes "op \<notin> {''load_const'', ''read_value'', ''write_value'', ''less''}"
  shows "asm_entry (op, arg) = Inl (UnknownCommand op)"
proof -
  have "op \<noteq> ''load_const''" "op \<noteq> ''read_value''" "op \<noteq> ''write_value''" "op \<noteq> ''less''"
    using assms by blast+
  then show ?thesis by (simp only: asm_entry_def prod.case if_False)
qed

lemma asm_entry_fail:
  "(\<exists>e. asm_entry (op, arg) = Inl e) \<longleftrightarrow>
   (op \<notin> {''load_const'', ''read_value'', ''write_value'', ''less''} \<or> arg < 0 \<or> 2 ^ 26 \<le> arg)"
proof (cases "op \<in> {''load_const'', ''read_value'', ''write_value'', ''less''}")
  case False
  then have "asm_entry (op, arg) = Inl (UnknownCommand op)" by (rule asm_entry_unknown)
  then show ?thesis using False by blast
next
  case True
  then obtain c where c: "0 \<le> c" "c < 128" "asm_entry (op, arg) = pack_instruction c arg"
    using asm_entry_known[of op arg] by blast
  show ?thesis unfolding c(3) pack_fail_iff[OF c(1,2)] using True by blast
qed

lemma asm_entry_length: "asm_entry entry = Inr w \<Longrightarrow> length w = 5"
proof -
  assume h: "asm_entry entry = Inr w"
  obtain op arg where en: "entry = (op, arg)" by (cases entry)
  have "op \<in> {''load_const'', ''read_value'', ''write_value'', ''less''}"
  proof (rule ccontr)
    assume "op \<notin> {''load_const'', ''read_value'', ''write_value'', ''less''}"
    then have "asm_entry (op, arg) = Inl (UnknownCommand op)" by (rule asm_entry_unknown)
    then show False using h en by simp
  qed
  then obtain c where c: "0 \<le> c" "c < 128" "asm_entry (op, arg) = pack_instruction c arg"
    using asm_entry_known[of op arg] by blast
  then have "pack_instruction c arg = Inr w" using h en by simp
  with c(1,2) show ?thesis by (rule pack_length)
qed


lemma asm_entries_words:
  "\<forall>entry \<in> set IR. \<exists>w. asm_entry entry = Inr w \<Longrightarrow>
   \<exists>ws. map asm_entry IR = map Inr ws \<and> (\<forall>w \<in> set ws. length w = 5)"
proof (induction IR)
  case Nil then show ?case by simp
next
  case (Cons entry IR)
  then obtain ws where ws: "map asm_entry IR = map Inr ws" "\<forall>w \<in> set ws. length w = 5"
    by auto
  obtain w where w: "asm_entry entry = Inr w" using Cons.prems by auto
  then have "length w = 5" by (rule asm_entry_length)
  then have "map asm_entry (entry # IR) = map Inr (w # ws) \<and> (\<forall>v \<in> set (w # ws). length v = 5)"
    using ws w by simp
  then show ?case by blast
qed

lemma asm_loop_length:
  "asm_loop IR bytecode = Inr bytecode' \<Longrightarrow> length bytecode' = length bytecode + 5 * length IR"
proof (induction IR arbitrary: bytecode)
  case Nil then show ?case by simp
next
  case (Cons entry IR)
  then obtain w where w: "asm_entry entry = Inr w"
    and r: "asm_loop IR (bytecode @ w) = Inr bytecode'"
    by (auto split: sum.splits)
  have "length w = 5" using w by (rule asm_entry_length)
  then show ?case using Cons.IH[OF r] by simp
qed

lemma full_asm_parse_fail:
  assumes "\<exists>line \<in> set (splitlines (strip text)). \<exists>e. parse_line line = Inl e"
  shows "\<exists>e. full_asm text = Inl e"
proof -
  obtain e where "parse_lines (splitlines (strip text)) [] = Inl e"
    using parse_lines_fail[OF assms] by blast
  then show ?thesis by (simp add: full_asm_def)
qed

lemma asm_fail_of_bad:
  assumes "\<exists>(op, arg) \<in> set IR.
             op \<notin> {''load_const'', ''read_value'', ''write_value'', ''less''} \<or>
             arg < 0 \<or> 2 ^ 26 \<le> arg"
  shows "\<exists>e. asm IR = Inl e"
proof -
  from assms obtain entry where m: "entry \<in> set IR"
    and b: "case entry of (op, arg) \<Rightarrow>
              op \<notin> {''load_const'', ''read_value'', ''write_value'', ''less''} \<or>
              arg < 0 \<or> 2 ^ 26 \<le> arg"
    by (rule bexE)
  obtain op arg where en: "entry = (op, arg)" by (cases entry)
  from b have "op \<notin> {''load_const'', ''read_value'', ''write_value'', ''less''} \<or>
              arg < 0 \<or> 2 ^ 26 \<le> arg"
    unfolding en by (simp only: prod.case)
  then have "\<exists>e. asm_entry (op, arg) = Inl e" unfolding asm_entry_fail .
  then have "\<exists>e. asm_entry entry = Inl e" unfolding en .
  with m have "\<exists>entry \<in> set IR. \<exists>e. asm_entry entry = Inl e" by (rule bexI[rotated])
  then show ?thesis unfolding asm_def by (rule asm_loop_fail)
qed

lemma asm_ok_of_range:
  assumes g: "\<forall>(op, arg) \<in> set IR.
             op \<in> {''load_const'', ''read_value'', ''write_value'', ''less''} \<and>
             0 \<le> arg \<and> arg < 2 ^ 26"
  shows "\<exists>ws. map asm_entry IR = map Inr ws \<and> (\<forall>w \<in> set ws. length w = 5) \<and>
              asm IR = Inr (concat ws)"
proof -
  have "\<exists>w. asm_entry entry = Inr w" if m: "entry \<in> set IR" for entry
  proof -
    obtain op arg where en: "entry = (op, arg)" by (cases entry)
    from g m have "case entry of (op, arg) \<Rightarrow>
        op \<in> {''load_const'', ''read_value'', ''write_value'', ''less''} \<and>
        0 \<le> arg \<and> arg < 2 ^ 26"
      by (rule bspec)
    then have k: "op \<in> {''load_const'', ''read_value'', ''write_value'', ''less''}"
      and lo: "0 \<le> arg" and hi: "arg < 2 ^ 26"
      unfolding en by (simp_all only: prod.case)
    obtain c where c: "0 \<le> c" "c < 128" "asm_entry (op, arg) = pack_instruction c arg"
      using asm_entry_known[OF k, of arg] by (elim exE conjE)
    obtain w where "pack_instruction c arg = Inr w"
      using pack_length_value[OF c(1,2) lo hi] by (elim exE conjE)
    then show ?thesis unfolding en c(3) by (rule exI)
  qed
  then have "\<forall>entry \<in> set IR. \<exists>w. asm_entry entry = Inr w" by (rule ballI)
  then have "\<exists>ws. map asm_entry IR = map Inr ws \<and> (\<forall>w \<in> set ws. length w = 5)"
    by (rule asm_entries_words)
  then obtain ws where ws: "map asm_entry IR = map Inr ws" "\<forall>w \<in> set ws. length w = 5"
    by (elim exE conjE)
  have "asm_loop IR [] = Inr ([] @ concat ws)" using ws(1) by (rule asm_loop_ok)
  then have "asm IR = Inr (concat ws)" by (simp add: asm_def)
  with ws show ?thesis by (intro exI conjI)
qed


text \<open>
  Claim C9. \<^verbatim>\<open>full_asm\<close> returns either one error or the pair (bytecode, IR), never a
  part of the bytecode. If the body of the loop raises on any line, \<^verbatim>\<open>full_asm\<close>
  raises. Otherwise the IR holds the entries of the lines in order; if any entry has a
  mnemonic outside the four commands or an argument outside \<open>[0, 2^26)\<close>, \<^verbatim>\<open>full_asm\<close>
  raises; if none has, the bytecode is the concatenation, in IR order, of the words of
  the entries, each of five bytes.
\<close>

theorem assembly_atomic:
  "((\<exists>line \<in> set (splitlines (strip text)). \<exists>e. parse_line line = Inl e) \<longrightarrow>
      (\<exists>e. full_asm text = Inl e)) \<and>
   ((\<forall>line \<in> set (splitlines (strip text)). \<forall>e. parse_line line \<noteq> Inl e) \<longrightarrow>
      (\<exists>IR. parse_lines (splitlines (strip text)) [] = Inr IR \<and>
            IR = concat (map (\<lambda>line. case parse_line line of
                                        Inr (Some entry) \<Rightarrow> [entry] | _ \<Rightarrow> [])
                             (splitlines (strip text))) \<and>
            ((\<exists>(op, arg) \<in> set IR.
                 op \<notin> {''load_const'', ''read_value'', ''write_value'', ''less''} \<or>
                 arg < 0 \<or> 2 ^ 26 \<le> arg) \<longrightarrow>
               (\<exists>e. full_asm text = Inl e)) \<and>
            ((\<forall>(op, arg) \<in> set IR.
                 op \<in> {''load_const'', ''read_value'', ''write_value'', ''less''} \<and>
                 0 \<le> arg \<and> arg < 2 ^ 26) \<longrightarrow>
               (\<exists>ws. map asm_entry IR = map Inr ws \<and> (\<forall>w \<in> set ws. length w = 5) \<and>
                     full_asm text = Inr (concat ws, IR))))) \<and>
   ((\<exists>e. full_asm text = Inl e) \<or>
    (\<exists>bytecode IR. full_asm text = Inr (bytecode, IR) \<and> length bytecode = 5 * length IR))"
proof (intro conjI impI)
  assume "\<exists>line \<in> set (splitlines (strip text)). \<exists>e. parse_line line = Inl e"
  then show "\<exists>e. full_asm text = Inl e" by (rule full_asm_parse_fail)
next
  let ?lines = "splitlines (strip text)"
  let ?IR = "concat (map (\<lambda>line. case parse_line line of
                                    Inr (Some entry) \<Rightarrow> [entry] | _ \<Rightarrow> []) ?lines)"
  assume "\<forall>line \<in> set ?lines. \<forall>e. parse_line line \<noteq> Inl e"
  then have "parse_lines ?lines [] = Inr ([] @ ?IR)" by (rule parse_lines_ok)
  then have p: "parse_lines ?lines [] = Inr ?IR" by (simp only: append_Nil)
  have f: "full_asm text = (case asm ?IR of Inl e \<Rightarrow> Inl e | Inr bytecode \<Rightarrow> Inr (bytecode, ?IR))"
    unfolding full_asm_def Let_def p by (simp only: sum.case)
  show "\<exists>IR. parse_lines ?lines [] = Inr IR \<and> IR = ?IR \<and>
            ((\<exists>(op, arg) \<in> set IR.
                 op \<notin> {''load_const'', ''read_value'', ''write_value'', ''less''} \<or>
                 arg < 0 \<or> 2 ^ 26 \<le> arg) \<longrightarrow>
               (\<exists>e. full_asm text = Inl e)) \<and>
            ((\<forall>(op, arg) \<in> set IR.
                 op \<in> {''load_const'', ''read_value'', ''write_value'', ''less''} \<and>
                 0 \<le> arg \<and> arg < 2 ^ 26) \<longrightarrow>
               (\<exists>ws. map asm_entry IR = map Inr ws \<and> (\<forall>w \<in> set ws. length w = 5) \<and>
                     full_asm text = Inr (concat ws, IR)))"
  proof (rule exI[of _ ?IR], intro conjI impI)
    show "parse_lines ?lines [] = Inr ?IR" by (rule p)
    show "?IR = ?IR" by (rule refl)
  next
    assume "\<exists>(op, arg) \<in> set ?IR.
                 op \<notin> {''load_const'', ''read_value'', ''write_value'', ''less''} \<or>
                 arg < 0 \<or> 2 ^ 26 \<le> arg"
    then have "\<exists>e. asm ?IR = Inl e" by (rule asm_fail_of_bad)
    then obtain e where "asm ?IR = Inl e" by (rule exE)
    then have "full_asm text = Inl e" unfolding f by (simp only: sum.case)
    then show "\<exists>e. full_asm text = Inl e" by (rule exI)
  next
    assume "\<forall>(op, arg) \<in> set ?IR.
                 op \<in> {''load_const'', ''read_value'', ''write_value'', ''less''} \<and>
                 0 \<le> arg \<and> arg < 2 ^ 26"
    then have "\<exists>ws. map asm_entry ?IR = map Inr ws \<and> (\<forall>w \<in> set ws. length w = 5) \<and>
              asm ?IR = Inr (concat ws)" by (rule asm_ok_of_range)
    then obtain ws where ws: "map asm_entry ?IR = map Inr ws" "\<forall>w \<in> set ws. length w = 5"
      "asm ?IR = Inr (concat ws)" by (elim exE conjE)
    have "full_asm text = Inr (concat ws, ?IR)" unfolding f ws(3) by (simp only: sum.case)
    with ws(1,2) show "\<exists>ws. map asm_entry ?IR = map Inr ws \<and> (\<forall>w \<in> set ws. length w = 5) \<and>
                     full_asm text = Inr (concat ws, ?IR)" by (intro exI conjI)
  qed
next
  show "(\<exists>e. full_asm text = Inl e) \<or>
    (\<exists>bytecode IR. full_asm text = Inr (bytecode, IR) \<and> length bytecode = 5 * length IR)"
  proof (cases "full_asm text")
    case (Inl e) then show ?thesis by blast
  next
    case (Inr r)
    obtain bytecode IR where r: "r = (bytecode, IR)" by (cases r)
    from Inr r have "asm_loop IR [] = Inr bytecode"
      by (auto simp: full_asm_def asm_def split: sum.splits)
    then have "length bytecode = length ([]::byte list) + 5 * length IR" by (rule asm_loop_length)
    then have "length bytecode = 5 * length IR" by simp
    then show ?thesis using Inr r by blast
  qed
qed


theorem assembly_atomic_witness:
  "(\<exists>e. full_asm ''load_const'' = Inl e) \<and>
   (\<exists>e. full_asm ''load_const;-1'' = Inl e) \<and>
   (\<exists>ws. map asm_entry [(''load_const'', 5)] = map Inr ws \<and> (\<forall>w \<in> set ws. length w = 5) \<and>
         full_asm ''load_const;5'' = Inr (concat ws, [(''load_const'', 5)]))"
proof -
  have l1: "splitlines (strip ''load_const'') = [''load_const'']"
    by (simp add: strip_def isspace_def splitlines_def is_linebreak_def)
  have p1: "parse_line ''load_const'' = Inl (MissingArgument ''load_const'')"
    by (simp add: parse_line_def strip_comment_def strip_def isspace_def)
  have h1: "\<exists>line \<in> set (splitlines (strip ''load_const'')). \<exists>e. parse_line line = Inl e"
    unfolding l1 using p1 by simp
  have a: "\<exists>e. full_asm ''load_const'' = Inl e"
    using assembly_atomic [of "''load_const''", THEN conjunct1] h1 by (rule mp)
  have l2: "splitlines (strip ''load_const;-1'') = [''load_const;-1'']"
    by (simp add: strip_def isspace_def splitlines_def is_linebreak_def)
  have p2: "parse_line ''load_const;-1'' = Inr (Some (''load_const'', - 1))"
    by (simp add: parse_line_def strip_comment_def strip_def isspace_def py_int_def int_space_def
          parse_unsigned_def is_digit_def digit_value_def)
  have h2: "\<forall>line \<in> set (splitlines (strip ''load_const;-1'')). \<forall>e. parse_line line \<noteq> Inl e"
    unfolding l2 using p2 by simp
  have "\<exists>IR. parse_lines (splitlines (strip ''load_const;-1'')) [] = Inr IR \<and>
            IR = concat (map (\<lambda>line. case parse_line line of
                                        Inr (Some entry) \<Rightarrow> [entry] | _ \<Rightarrow> [])
                             (splitlines (strip ''load_const;-1''))) \<and>
            ((\<exists>(op, arg) \<in> set IR.
                 op \<notin> {''load_const'', ''read_value'', ''write_value'', ''less''} \<or>
                 arg < 0 \<or> 2 ^ 26 \<le> arg) \<longrightarrow>
               (\<exists>e. full_asm ''load_const;-1'' = Inl e)) \<and>
            ((\<forall>(op, arg) \<in> set IR.
                 op \<in> {''load_const'', ''read_value'', ''write_value'', ''less''} \<and>
                 0 \<le> arg \<and> arg < 2 ^ 26) \<longrightarrow>
               (\<exists>ws. map asm_entry IR = map Inr ws \<and> (\<forall>w \<in> set ws. length w = 5) \<and>
                     full_asm ''load_const;-1'' = Inr (concat ws, IR)))"
    using assembly_atomic [of "''load_const;-1''", THEN conjunct2, THEN conjunct1] h2 by (rule mp)
  then have b: "\<exists>e. full_asm ''load_const;-1'' = Inl e"
    unfolding l2 by (simp add: p2)
  have l3: "splitlines (strip ''load_const;5'') = [''load_const;5'']"
    by (simp add: strip_def isspace_def splitlines_def is_linebreak_def)
  have p3: "parse_line ''load_const;5'' = Inr (Some (''load_const'', 5))"
    by (simp add: parse_line_def strip_comment_def strip_def isspace_def py_int_def int_space_def
          parse_unsigned_def is_digit_def digit_value_def)
  have h3: "\<forall>line \<in> set (splitlines (strip ''load_const;5'')). \<forall>e. parse_line line \<noteq> Inl e"
    unfolding l3 using p3 by simp
  have "\<exists>IR. parse_lines (splitlines (strip ''load_const;5'')) [] = Inr IR \<and>
            IR = concat (map (\<lambda>line. case parse_line line of
                                        Inr (Some entry) \<Rightarrow> [entry] | _ \<Rightarrow> [])
                             (splitlines (strip ''load_const;5''))) \<and>
            ((\<exists>(op, arg) \<in> set IR.
                 op \<notin> {''load_const'', ''read_value'', ''write_value'', ''less''} \<or>
                 arg < 0 \<or> 2 ^ 26 \<le> arg) \<longrightarrow>
               (\<exists>e. full_asm ''load_const;5'' = Inl e)) \<and>
            ((\<forall>(op, arg) \<in> set IR.
                 op \<in> {''load_const'', ''read_value'', ''write_value'', ''less''} \<and>
                 0 \<le> arg \<and> arg < 2 ^ 26) \<longrightarrow>
               (\<exists>ws. map asm_entry IR = map Inr ws \<and> (\<forall>w \<in> set ws. length w = 5) \<and>
                     full_asm ''load_const;5'' = Inr (concat ws, IR)))"
    using assembly_atomic [of "''load_const;5''", THEN conjunct2, THEN conjunct1] h3 by (rule mp)
  then have c: "\<exists>ws. map asm_entry [(''load_const'', 5)] = map Inr ws \<and>
         (\<forall>w \<in> set ws. length w = 5) \<and>
         full_asm ''load_const;5'' = Inr (concat ws, [(''load_const'', 5)])"
    unfolding l3 by (simp add: p3)
  from a b c show ?thesis by (intro conjI)
qed

lemma strip_Nil: "strip [] = []"
  by (simp add: strip_def)

text \<open>
  Claim C5, as the code has it. For a line that is not empty after stripping and removal
  of the comment, the line is split at every \<^verbatim>\<open>;\<close>: the mnemonic is the text before the
  first \<^verbatim>\<open>;\<close> and the argument is the text between the first \<^verbatim>\<open>;\<close> and the second one
  (or the end of the line), both stripped. When the argument is missing or empty the
  body raises the error that names the mnemonic; otherwise the argument is parsed by
  \<^verbatim>\<open>int\<close>, whose error is raised when it fails. What follows a second \<^verbatim>\<open>;\<close> is not
  looked at. An error of the body on a line of the source makes \<^verbatim>\<open>full_asm\<close> raise.
\<close>

theorem argument_field:
  assumes "strip_comment line0 \<noteq> []"
  shows "(let line = strip_comment line0;
              cmd = strip (takeWhile (\<lambda>c. c \<noteq> CHR '';'') line);
              arg = strip (takeWhile (\<lambda>c. c \<noteq> CHR '';'')
                             (drop 1 (dropWhile (\<lambda>c. c \<noteq> CHR '';'') line)))
          in (arg = [] \<longrightarrow> parse_line line0 = Inl (MissingArgument cmd)) \<and>
             (arg \<noteq> [] \<longrightarrow>
                parse_line line0 =
                  (case py_int arg of Inl e \<Rightarrow> Inl e | Inr n \<Rightarrow> Inr (Some (cmd, n))))) \<and>
         (\<forall>text. line0 \<in> set (splitlines (strip text)) \<and> (\<exists>e. parse_line line0 = Inl e) \<longrightarrow>
                 (\<exists>e. full_asm text = Inl e))"
proof (rule conjI)
  let ?line = "strip_comment line0"
  let ?parts = "split_on CHR '';'' ?line"
  let ?cmd = "strip (takeWhile (\<lambda>c. c \<noteq> CHR '';'') ?line)"
  let ?field = "takeWhile (\<lambda>c. c \<noteq> CHR '';'') (drop 1 (dropWhile (\<lambda>c. c \<noteq> CHR '';'') ?line))"
  have p: "parse_line line0 =
     (if 1 < length ?parts \<and> strip (?parts ! 1) \<noteq> []
      then (case py_int (strip (?parts ! 1)) of
              Inl e \<Rightarrow> Inl e | Inr n \<Rightarrow> Inr (Some (strip (?parts ! 0), n)))
      else Inl (MissingArgument (strip (?parts ! 0))))"
    using assms by (simp add: parse_line_def Let_def)
  have c: "strip (?parts ! 0) = ?cmd" by (simp only: split_on_first)
  have q: "(strip ?field = [] \<longrightarrow> parse_line line0 = Inl (MissingArgument ?cmd)) \<and>
        (strip ?field \<noteq> [] \<longrightarrow>
           parse_line line0 =
             (case py_int (strip ?field) of Inl e \<Rightarrow> Inl e | Inr n \<Rightarrow> Inr (Some (?cmd, n))))"
  proof (cases "CHR '';'' \<in> set ?line")
    case True
    then have l: "1 < length ?parts" by (simp only: length_split_on)
    have f: "?parts ! 1 = ?field" using True by (rule split_on_second)
    show ?thesis unfolding p c f using l by simp
  next
    case False
    then have l: "\<not> 1 < length ?parts" unfolding length_split_on .
    have d: "dropWhile (\<lambda>c. c \<noteq> CHR '';'') ?line = []"
      using False by (auto simp: dropWhile_eq_Nil_conv)
    have "strip ?field = []" by (simp only: d drop_Nil takeWhile.simps strip_Nil)
    then show ?thesis unfolding p c using l by simp
  qed
  then show "let line = strip_comment line0;
              cmd = strip (takeWhile (\<lambda>c. c \<noteq> CHR '';'') line);
              arg = strip (takeWhile (\<lambda>c. c \<noteq> CHR '';'')
                             (drop 1 (dropWhile (\<lambda>c. c \<noteq> CHR '';'') line)))
          in (arg = [] \<longrightarrow> parse_line line0 = Inl (MissingArgument cmd)) \<and>
             (arg \<noteq> [] \<longrightarrow>
                parse_line line0 =
                  (case py_int arg of Inl e \<Rightarrow> Inl e | Inr n \<Rightarrow> Inr (Some (cmd, n))))"
    by (simp only: Let_def)
next
  show "\<forall>text. line0 \<in> set (splitlines (strip text)) \<and> (\<exists>e. parse_line line0 = Inl e) \<longrightarrow>
                 (\<exists>e. full_asm text = Inl e)"
  proof (intro allI impI)
    fix source
    assume "line0 \<in> set (splitlines (strip source)) \<and> (\<exists>e. parse_line line0 = Inl e)"
    then have "\<exists>line \<in> set (splitlines (strip source)). \<exists>e. parse_line line = Inl e"
      by (elim conjE) (rule bexI)
    then show "\<exists>e. full_asm source = Inl e" by (rule full_asm_parse_fail)
  qed
qed


theorem argument_field_witness:
  "parse_line ''load_const;5;junk'' = Inr (Some (''load_const'', 5)) \<and>
   parse_line ''load_const'' = Inl (MissingArgument ''load_const'')"
proof -
  have h1: "strip_comment ''load_const;5;junk'' \<noteq> []"
    by (simp add: strip_comment_def strip_def isspace_def)
  have h2: "strip_comment ''load_const'' \<noteq> []"
    by (simp add: strip_comment_def strip_def isspace_def)
  from argument_field [OF h1] have "parse_line ''load_const;5;junk'' = Inr (Some (''load_const'', 5))"
    by (simp add: Let_def strip_comment_def strip_def isspace_def py_int_def int_space_def
          parse_unsigned_def is_digit_def digit_value_def)
  moreover from argument_field [OF h2]
  have "parse_line ''load_const'' = Inl (MissingArgument ''load_const'')"
    by (simp add: Let_def strip_comment_def strip_def isspace_def)
  ultimately show ?thesis by (rule conjI)
qed

text \<open>
  The claim C5 as stated fails: a line with a second \<^verbatim>\<open>;\<close>-separated field assembles.
\<close>

theorem second_field_ignored:
  "full_asm ''load_const;5;junk'' = Inr ([0x8E, 2, 0, 0, 0], [(''load_const'', 5)])"
  by (simp add: full_asm_def strip_def isspace_def splitlines_def is_linebreak_def
        parse_line_def strip_comment_def py_int_def int_space_def parse_unsigned_def is_digit_def
        digit_value_def asm_def asm_entry_def asm_load_const_def OP_LOAD_CONST_def
        pack_instruction_def to_bytes_def numeral_eq_Suc)

end
